theory Spec2Isabelle
  imports Main "HOL-Library.Word" "HOL-Library.Multiset"
begin

section \<open>Go library functions used by gcs-upload\<close>

text \<open>
  gcs-upload is a single Go package. The repository holds four revisions of
  it: \<^verbatim>\<open>src/unnamed/part_000\<close> (the oldest), the two revisions
  concatenated in \<^verbatim>\<open>src/main.go\<close> (lines 1-155 and 156-352) and
  \<^verbatim>\<open>src/unnamed/part_001\<close> (the newest, with list files).
  Strings are byte strings, as in Go. The functions of this section belong to
  the Go standard library; they are written here after their Go sources and
  documentation, restricted to the arguments the program passes.
\<close>

subsection \<open>strings\<close>

definition strings_HasSuffix :: "string \<Rightarrow> string \<Rightarrow> bool" where
  "strings_HasSuffix s suffix =
     (length s \<ge> length suffix \<and> drop (length s - length suffix) s = suffix)"

definition strings_TrimSuffix :: "string \<Rightarrow> string \<Rightarrow> string" where
  "strings_TrimSuffix s suffix =
     (if strings_HasSuffix s suffix then take (length s - length suffix) s else s)"

text \<open>
  \<^verbatim>\<open>strings.ToLower\<close> as it works on a string of ASCII bytes: the letters \<^verbatim>\<open>A\<close> to
  \<^verbatim>\<open>Z\<close> are lowered, every other byte is kept. On a string with bytes outside ASCII
  Go maps each rune with \<^verbatim>\<open>unicode.ToLower\<close> (the Kelvin sign becomes \<^verbatim>\<open>k\<close>); that
  is not modelled, such bytes are kept here.
\<close>

definition lower_byte :: "char \<Rightarrow> char" where
  "lower_byte c =
     (if 65 \<le> (of_char c :: nat) \<and> (of_char c :: nat) \<le> 90
      then char_of (of_char c + (32 :: nat)) else c)"

definition strings_ToLower :: "string \<Rightarrow> string" where
  "strings_ToLower s = map lower_byte s"

subsection \<open>strconv.ParseUint(s, 10, 64)\<close>

type_synonym u64 = "64 word"

datatype num_error = ErrSyntax | ErrRange

definition is_digit :: "char \<Rightarrow> bool" where
  "is_digit c = (48 \<le> (of_char c :: nat) \<and> (of_char c :: nat) \<le> 57)"

definition digit_val :: "char \<Rightarrow> u64" where
  "digit_val c = of_nat ((of_char c :: nat) - 48)"

text \<open>\<^verbatim>\<open>cutoff = maxUint64/10 + 1\<close>: the least \<open>n\<close> with \<open>n * 10\<close> above \<open>2^64 - 1\<close>.\<close>

definition cutoff10 :: u64 where
  "cutoff10 = 1844674407370955162"

text \<open>
  The loop \<^verbatim>\<open>for _, c := range []byte(s)\<close> of \<^verbatim>\<open>ParseUint\<close> in base 10: a byte that
  is not a decimal digit is a syntax error at once, an overflow of \<open>n * 10\<close> or of
  \<open>n * 10 + d\<close> a range error at once.
\<close>

fun parseUint_loop :: "u64 \<Rightarrow> string \<Rightarrow> num_error + u64" where
  "parseUint_loop n [] = Inr n"
| "parseUint_loop n (c # cs) =
     (if \<not> is_digit c then Inl ErrSyntax
      else if n \<ge> cutoff10 then Inl ErrRange
      else let n10 = n * 10; n1 = n10 + digit_val c
           in if n1 < n10 then Inl ErrRange else parseUint_loop n1 cs)"

definition strconv_ParseUint :: "string \<Rightarrow> num_error + u64" where
  "strconv_ParseUint s = (if s = [] then Inl ErrSyntax else parseUint_loop 0 s)"

subsection \<open>strconv.Itoa and the verb \<^verbatim>\<open>%d\<close> with a width\<close>

definition digit_char :: "nat \<Rightarrow> char" where
  "digit_char d = char_of (48 + d)"

fun nat_digits :: "nat \<Rightarrow> string" where
  "nat_digits k =
     (if k < 10 then [digit_char k] else nat_digits (k div 10) @ [digit_char (k mod 10)])"

definition strconv_Itoa :: "int \<Rightarrow> string" where
  "strconv_Itoa i = (if i < 0 then CHR ''-'' # nat_digits (nat (- i)) else nat_digits (nat i))"

text \<open>
  \<^verbatim>\<open>fmt\<close> renders \<^verbatim>\<open>%7d\<close> and \<^verbatim>\<open>%*d\<close> (width from an argument, not negative
  here) as the decimal number, padded on the left with spaces up to the width.
  Only the flag \<^verbatim>\<open>0\<close>, which neither format has, would pad with zeros.
\<close>

definition fmt_d :: "nat \<Rightarrow> int \<Rightarrow> string" where
  "fmt_d width i =
     replicate (width - length (strconv_Itoa i)) CHR '' '' @ strconv_Itoa i"

subsection \<open>path.Clean and path.Join\<close>

definition slash :: char where
  "slash = CHR ''/''"

definition dot :: char where
  "dot = CHR ''.''"

text \<open>
  \<^verbatim>\<open>path.Clean\<close> reads the path byte by byte and writes the result into a buffer
  \<open>out\<close>; \<open>dotdot\<close> is the index in \<open>out\<close> that a \<^verbatim>\<open>..\<close> element must not
  backtrack over. \<open>backtrack\<close> is its inner loop
  \<^verbatim>\<open>out.w--; for out.w > dotdot && out.index(out.w) != '/' { out.w-- }\<close>.
\<close>

fun backtrack_w :: "nat \<Rightarrow> string \<Rightarrow> nat \<Rightarrow> nat" where
  "backtrack_w dotdot out 0 = 0"
| "backtrack_w dotdot out (Suc w) =
     (if Suc w > dotdot \<and> out ! Suc w \<noteq> slash then backtrack_w dotdot out w else Suc w)"

definition backtrack :: "nat \<Rightarrow> string \<Rightarrow> string" where
  "backtrack dotdot out = take (backtrack_w dotdot out (length out - 1)) out"

function clean_loop :: "bool \<Rightarrow> nat \<Rightarrow> string \<Rightarrow> string \<Rightarrow> string" where
  "clean_loop rooted dotdot out [] = out"
| "clean_loop rooted dotdot out (c # cs) =
     (if c = slash then clean_loop rooted dotdot out cs
      else if c = dot \<and> (cs = [] \<or> hd cs = slash) then clean_loop rooted dotdot out cs
      else if c = dot \<and> hd cs = dot \<and> (tl cs = [] \<or> hd (tl cs) = slash) then
        (if length out > dotdot then clean_loop rooted dotdot (backtrack dotdot out) (tl cs)
         else if \<not> rooted then
           (let out' = (if length out > 0 then out @ [slash] else out) @ [dot, dot]
            in clean_loop rooted (length out') out' (tl cs))
         else clean_loop rooted dotdot out (tl cs))
      else
        (let out' = (if rooted \<and> length out \<noteq> 1 \<or> \<not> rooted \<and> length out \<noteq> 0
                     then out @ [slash] else out)
         in clean_loop rooted dotdot (out' @ c # takeWhile (\<lambda>b. b \<noteq> slash) cs)
              (dropWhile (\<lambda>b. b \<noteq> slash) cs)))"
  by pat_completeness auto
termination
  by (relation "measure (\<lambda>(rooted, dotdot, out, path). length path)")
     (auto simp: length_dropWhile_le less_Suc_eq_le)

definition path_Clean :: "string \<Rightarrow> string" where
  "path_Clean path =
     (if path = [] then [dot]
      else let out = (if hd path = slash then clean_loop True 1 [slash] (tl path)
                      else clean_loop False 0 [] path)
           in if out = [] then [dot] else out)"

fun join_slash :: "string list \<Rightarrow> string" where
  "join_slash [] = []"
| "join_slash [e] = e"
| "join_slash (e # es) = e @ slash # join_slash es"

text \<open>
  \<^verbatim>\<open>path.Join\<close>: leading empty elements are ignored, the rest is joined with
  slashes and cleaned; when every element is empty the result is the empty string.
\<close>

definition path_Join :: "string list \<Rightarrow> string" where
  "path_Join elem =
     (let es = dropWhile (\<lambda>e. e = []) elem
      in if es = [] then [] else path_Clean (join_slash es))"

subsection \<open>path/filepath\<close>

text \<open>
  The functions of \<^verbatim>\<open>path/filepath\<close> depend on the host system. A host gives
  \<^verbatim>\<open>os.PathSeparator\<close> and its \<^verbatim>\<open>filepath.Join\<close>. On Unix the separator is the
  slash and \<^verbatim>\<open>filepath.Join\<close> computes what \<^verbatim>\<open>path.Join\<close> does.
\<close>

record host =
  Separator :: char
  filepath_Join :: "string list \<Rightarrow> string"

definition unix_host :: host where
  "unix_host = \<lparr>Separator = CHR ''/'', filepath_Join = path_Join\<rparr>"

text \<open>
  \<^verbatim>\<open>filepath.ToSlash\<close>: \<^verbatim>\<open>if Separator == '/' { return path }\<close>, otherwise every
  separator is replaced by a slash.
\<close>

definition filepath_ToSlash :: "host \<Rightarrow> string \<Rightarrow> string" where
  "filepath_ToSlash h path =
     (if Separator h = slash then path
      else map (\<lambda>c. if c = Separator h then slash else c) path)"

subsection \<open>bufio.Scanner with bufio.ScanLines\<close>

definition newline :: char where
  "newline = CHR 0x0A"

definition carriage_return :: char where
  "carriage_return = CHR 0x0D"

text \<open>\<^verbatim>\<open>bufio.MaxScanTokenSize = 64 * 1024\<close>, the size the scanner's buffer grows to.\<close>

definition MaxScanTokenSize :: nat where
  "MaxScanTokenSize = 64 * 1024"

definition dropCR :: "string \<Rightarrow> string" where
  "dropCR data = (if data \<noteq> [] \<and> last data = carriage_return then butlast data else data)"

text \<open>
  All the tokens a \<^verbatim>\<open>bufio.Scanner\<close> with the default split function
  \<^verbatim>\<open>ScanLines\<close> returns on the input \<open>data\<close>, and whether it stopped with
  \<^verbatim>\<open>ErrTooLong\<close>. A line ends at a newline; one carriage return before the newline
  is dropped; a last line without a newline is returned when it is not empty. The
  scanner gives up when \<^verbatim>\<open>MaxScanTokenSize\<close> bytes hold no newline.
\<close>

function Scanner_tokens :: "string \<Rightarrow> string list \<times> bool" where
  "Scanner_tokens data =
     (if data = [] then ([], False)
      else if length (takeWhile (\<lambda>b. b \<noteq> newline) data) \<ge> MaxScanTokenSize then ([], True)
      else if dropWhile (\<lambda>b. b \<noteq> newline) data = []
        then ([dropCR (takeWhile (\<lambda>b. b \<noteq> newline) data)], False)
      else (dropCR (takeWhile (\<lambda>b. b \<noteq> newline) data) #
              fst (Scanner_tokens (tl (dropWhile (\<lambda>b. b \<noteq> newline) data))),
            snd (Scanner_tokens (tl (dropWhile (\<lambda>b. b \<noteq> newline) data)))))"
  by pat_completeness auto
termination
proof (relation "measure length")
  fix data :: string
  assume "dropWhile (\<lambda>b. b \<noteq> newline) data \<noteq> []"
  then have "length (tl (dropWhile (\<lambda>b. b \<noteq> newline) data))
      < length (dropWhile (\<lambda>b. b \<noteq> newline) data)"
    by (cases "dropWhile (\<lambda>b. b \<noteq> newline) data") simp_all
  also have "\<dots> \<le> length data"
    by (rule length_dropWhile_le)
  finally show "(tl (dropWhile (\<lambda>b. b \<noteq> newline) data), data) \<in> measure length"
    by simp
next
  fix data :: string
  assume "dropWhile (\<lambda>b. b \<noteq> newline) data \<noteq> []"
  then have "length (tl (dropWhile (\<lambda>b. b \<noteq> newline) data))
      < length (dropWhile (\<lambda>b. b \<noteq> newline) data)"
    by (cases "dropWhile (\<lambda>b. b \<noteq> newline) data") simp_all
  also have "\<dots> \<le> length data"
    by (rule length_dropWhile_le)
  finally show "(tl (dropWhile (\<lambda>b. b \<noteq> newline) data), data) \<in> measure length"
    by simp
qed simp

subsection \<open>rand.Shuffle\<close>

text \<open>
  The callback the program passes: \<^verbatim>\<open>files[i], files[j] = files[j], files[i]\<close>.
\<close>

definition swap :: "nat \<Rightarrow> nat \<Rightarrow> 'a list \<Rightarrow> 'a list" where
  "swap i j xs = xs[i := xs ! j, j := xs ! i]"

text \<open>
  \<^verbatim>\<open>rand.Shuffle(n, swap)\<close> is the Fisher-Yates loop
  \<^verbatim>\<open>for i := n - 1; i > 0; i-- { j := int(r.int31n(int32(i + 1))); swap(i, j) }\<close>.
  The random source is an oracle \<open>rnd\<close>: \<open>rnd i\<close> is the number the generator
  yields at index \<open>i\<close>, reduced into the range \<open>0..i\<close>.
\<close>

fun shuffle_from :: "(nat \<Rightarrow> nat) \<Rightarrow> nat \<Rightarrow> 'a list \<Rightarrow> 'a list" where
  "shuffle_from rnd 0 xs = xs"
| "shuffle_from rnd (Suc i) xs =
     shuffle_from rnd i (swap (Suc i) (rnd (Suc i) mod (Suc i + 1)) xs)"

definition rand_Shuffle :: "(nat \<Rightarrow> nat) \<Rightarrow> 'a list \<Rightarrow> 'a list" where
  "rand_Shuffle rnd xs = shuffle_from rnd (length xs - 1) xs"

section \<open>Byte-size flags: \<^verbatim>\<open>bytesValue\<close>\<close>

text \<open>\<^verbatim>\<open>var bytesUnits\<close> (main.go 315-325, part_001 183-193), in its order.\<close>

definition bytesUnits :: "(string \<times> u64) list" where
  "bytesUnits =
     [(''m'', 1 * 1024 * 1024), (''k'', 1 * 1024), (''mb'', 1 * 1024 * 1024),
      (''kb'', 1 * 1024), (''b'', 1), ('''', 1)]"

text \<open>
  The outcome of \<^verbatim>\<open>(*bytesValue).Set\<close>: the receiver is assigned and \<^verbatim>\<open>nil\<close>
  returned, or the error \<^verbatim>\<open>parse(s): err\<close> is returned, or the function panics
  with \<^verbatim>\<open>"unreachable"\<close>.
\<close>

datatype set_result = Assigned u64 | ParseError string num_error | PanicUnreachable

text \<open>The loop \<^verbatim>\<open>for _, u := range bytesUnits\<close> of \<^verbatim>\<open>Set\<close>, with the panic after it.\<close>

fun Set_units :: "(string \<times> u64) list \<Rightarrow> string \<Rightarrow> string \<Rightarrow> set_result" where
  "Set_units [] s x = PanicUnreachable"
| "Set_units ((suffix, unit_value) # us) s x =
     (if \<not> strings_HasSuffix x suffix then Set_units us s x
      else case strconv_ParseUint (strings_TrimSuffix x suffix) of
             Inl err \<Rightarrow> ParseError s err
           | Inr v \<Rightarrow> Assigned (v * unit_value))"

definition bytesValue_Set :: "string \<Rightarrow> set_result" where
  "bytesValue_Set s = Set_units bytesUnits s (strings_ToLower s)"

section \<open>Command line, list files and the work list\<close>

text \<open>The revisions of the program; the two revisions in main.go have the same upload task.\<close>

datatype version = Part000 | MainGo | Part001

text \<open>What \<^verbatim>\<open>url.ParseRequestURI\<close> returns, as far as the program reads it.\<close>

record url =
  Scheme :: string
  Hostname :: string
  Path :: string

text \<open>The flags and positional arguments of part_001 after \<^verbatim>\<open>flag.Parse()\<close>.\<close>

record flags =
  flag_n :: int
  flag_v :: bool
  flag_buf :: u64
  flag_chunk :: u64
  flag_gc :: int
  flag_shuffle :: bool
  flag_l :: string
  flag_d :: string
  flag_args :: "string list"

text \<open>
  The world outside the program: the URL parser, the regular files by name, standard
  input, what a walk of a directory visits (the paths of its non-directories in
  order, and whether the walk ended in an error), the names \<^verbatim>\<open>os.CreateTemp\<close> hands
  out next (it fails when there is none), which files fail on write or on close, and
  whether \<^verbatim>\<open>storage.NewClient\<close> succeeds.
\<close>

record world =
  ParseRequestURI :: "string \<Rightarrow> url option"
  file_content :: "string \<Rightarrow> string option"
  stdin :: string
  WalkDir_files :: "string \<Rightarrow> string list \<times> bool"
  temp_names :: "string list"
  write_fails :: "string \<Rightarrow> bool"
  close_fails :: "string \<Rightarrow> bool"
  NewClient_ok :: bool

datatype effect =
    PrintUsage
  | FsCreateTemp
  | FsWalkDir string
  | FsOpen string
  | FsRemove string
  | NetNewClient

datatype list_error =
    OpenListFile | ScanListFile | CreateListFile | Walk | WritePath | CloseListFile

definition openFile :: "world \<Rightarrow> string \<Rightarrow> string option" where
  "openFile w name = (if name = ''-'' then Some (stdin w) else file_content w name)"

text \<open>What the loops \<^verbatim>\<open>WriteString(p + "\n")\<close> write for a list of paths.\<close>

definition list_text :: "string list \<Rightarrow> string" where
  "list_text paths = concat (map (\<lambda>p. p @ [newline]) paths)"

text \<open>
  \<^verbatim>\<open>writeListFile\<close> (part_001 229-254) returns the new world, its effects, the name
  it returns and its error.
\<close>

definition writeListFile ::
  "world \<Rightarrow> string \<Rightarrow> world \<times> effect list \<times> string \<times> list_error option" where
  "writeListFile w dir =
     (case temp_names w of
        [] \<Rightarrow> (w, [FsCreateTemp], [], Some CreateListFile)
      | name # names \<Rightarrow>
          let w1 = w\<lparr>temp_names := names, file_content := (file_content w)(name \<mapsto> [])\<rparr>;
              paths = fst (WalkDir_files w dir);
              effects = [FsCreateTemp, FsWalkDir dir]
          in if paths \<noteq> [] \<and> write_fails w name then (w1, effects, name, Some Walk)
             else
               let w2 = w1\<lparr>file_content := (file_content w1)(name \<mapsto> list_text paths)\<rparr>
               in if snd (WalkDir_files w dir) then (w2, effects, name, Some Walk)
                  else if close_fails w name then (w2, effects, name, Some CloseListFile)
                  else (w2, effects, name, None))"

text \<open>
  \<^verbatim>\<open>shuffleListFile\<close> (part_001 256-292): the lines of the list file are read with
  a scanner, shuffled in memory and written, each followed by a newline, to a new
  temporary file, whose name is returned.
\<close>

definition shuffleListFile ::
  "world \<Rightarrow> (nat \<Rightarrow> nat) \<Rightarrow> string \<Rightarrow> world \<times> effect list \<times> string \<times> list_error option" where
  "shuffleListFile w rnd listFile =
     (case openFile w listFile of
        None \<Rightarrow> (w, [FsOpen listFile], [], Some OpenListFile)
      | Some data \<Rightarrow>
          if snd (Scanner_tokens data) then (w, [FsOpen listFile], [], Some ScanListFile)
          else
            let files = rand_Shuffle rnd (fst (Scanner_tokens data))
            in case temp_names w of
                 [] \<Rightarrow> (w, [FsOpen listFile, FsCreateTemp], [], Some CreateListFile)
               | name # names \<Rightarrow>
                   let w1 = w\<lparr>temp_names := names,
                              file_content := (file_content w)(name \<mapsto> [])\<rparr>;
                       effects = [FsOpen listFile, FsCreateTemp]
                   in if files \<noteq> [] \<and> write_fails w name
                      then (w1, effects, [], Some WritePath)
                      else
                        let w2 = w1\<lparr>file_content :=
                                       (file_content w1)(name \<mapsto> list_text files)\<rparr>
                        in if close_fails w name then (w2, effects, [], Some CloseListFile)
                           else (w2, effects, name, None))"

text \<open>
  The work list of main.go and part_000 (main.go 73-77): the walked files, shuffled
  unless \<^verbatim>\<open>-s\<close> is given.
\<close>

definition order_files :: "bool \<Rightarrow> (nat \<Rightarrow> nat) \<Rightarrow> string list \<Rightarrow> string list" where
  "order_files sequential rnd files = (if \<not> sequential then rand_Shuffle rnd files else files)"

section \<open>\<^verbatim>\<open>run\<close> of part_001 up to the uploads\<close>

datatype task_error = OpenUploadFile | Upload | CloseWriter

datatype run_error =
    InvalidArgs
  | TargetNotFound
  | CannotUseBoth
  | ParseDest
  | DestScheme string
  | WriteListFileFailed list_error
  | ShuffleListFileFailed list_error
  | OpenListFileFailed
  | StorageClient
  | Uploads task_error
  | ScanListFileFailed

text \<open>
  What the uploads start from: the parsed destination, the tokens the scanner of the
  list file will return and whether it will end with an error, the temporary files
  the deferred \<^verbatim>\<open>os.Remove\<close> calls delete when \<^verbatim>\<open>run\<close> returns, and the world.
\<close>

record prepared =
  p_dest :: url
  p_tokens :: "string list"
  p_scan_error :: bool
  p_deferred :: "string list"
  p_world :: world

text \<open>Lines 66-75: \<^verbatim>\<open>if *dir != ""\<close>, the list file is written from a walk.\<close>

definition dir_stage ::
  "world \<Rightarrow> flags \<Rightarrow> world \<times> effect list \<times> string \<times> string list \<times> list_error option" where
  "dir_stage w fl =
     (if flag_d fl \<noteq> [] then
        (case writeListFile w (flag_d fl) of
           (w1, effects, lf, err) \<Rightarrow> (w1, effects, lf, (if lf \<noteq> [] then [lf] else []), err))
      else (w, [], flag_l fl, [], None))"

text \<open>Lines 77-86: \<^verbatim>\<open>if *shuffle\<close>, the list file is replaced by a shuffled copy.\<close>

definition shuffle_stage ::
  "world \<Rightarrow> (nat \<Rightarrow> nat) \<Rightarrow> flags \<Rightarrow> string \<Rightarrow>
     world \<times> effect list \<times> string \<times> string list \<times> list_error option" where
  "shuffle_stage w rnd fl listFilePath =
     (if flag_shuffle fl then
        (case shuffleListFile w rnd listFilePath of
           (w1, effects, lf, err) \<Rightarrow> (w1, effects, lf, (if lf \<noteq> [] then [lf] else []), err))
      else (w, [], listFilePath, [], None))"

text \<open>
  Lines 42-100 of part_001. On an error return the deferred removals run, the later
  one first.
\<close>

definition run_prepare ::
  "world \<Rightarrow> (nat \<Rightarrow> nat) \<Rightarrow> flags \<Rightarrow> effect list \<times> (run_error + prepared)" where
  "run_prepare w rnd fl =
     (if length (flag_args fl) \<noteq> 1 then ([PrintUsage], Inl InvalidArgs)
      else if flag_l fl = [] \<and> flag_d fl = [] then ([PrintUsage], Inl TargetNotFound)
      else if flag_l fl \<noteq> [] \<and> flag_d fl \<noteq> [] then ([PrintUsage], Inl CannotUseBoth)
      else case ParseRequestURI w (hd (flag_args fl)) of
        None \<Rightarrow> ([], Inl ParseDest)
      | Some dest \<Rightarrow>
          if Scheme dest \<noteq> ''gs'' then ([], Inl (DestScheme (Scheme dest)))
          else case dir_stage w fl of
            (w1, effects1, lf1, rm1, Some err1) \<Rightarrow>
              (effects1 @ map FsRemove rm1, Inl (WriteListFileFailed err1))
          | (w1, effects1, lf1, rm1, None) \<Rightarrow>
              (case shuffle_stage w1 rnd fl lf1 of
                 (w2, effects2, lf2, rm2, Some err2) \<Rightarrow>
                   (effects1 @ effects2 @ map FsRemove (rm2 @ rm1),
                    Inl (ShuffleListFileFailed err2))
               | (w2, effects2, lf2, rm2, None) \<Rightarrow>
                   (case openFile w2 lf2 of
                      None \<Rightarrow>
                        (effects1 @ effects2 @ [FsOpen lf2] @ map FsRemove (rm2 @ rm1),
                         Inl OpenListFileFailed)
                    | Some data \<Rightarrow>
                        if \<not> NewClient_ok w2
                        then (effects1 @ effects2 @ [FsOpen lf2, NetNewClient]
                                @ map FsRemove (rm2 @ rm1),
                              Inl StorageClient)
                        else (effects1 @ effects2 @ [FsOpen lf2, NetNewClient],
                              Inr \<lparr>p_dest = dest,
                                   p_tokens = fst (Scanner_tokens data),
                                   p_scan_error = snd (Scanner_tokens data),
                                   p_deferred = rm2 @ rm1,
                                   p_world = w2\<rparr>))))"

section \<open>The upload tasks\<close>

text \<open>
  What the closure passed to \<^verbatim>\<open>eg.Go\<close> reads: the revision, the host system,
  \<^verbatim>\<open>*n\<close>, \<^verbatim>\<open>*verbose\<close>, \<^verbatim>\<open>*gcInterval\<close> (absent in part_000), the source
  directory (\<^verbatim>\<open>src\<close>, in part_001 \<^verbatim>\<open>*dir\<close>), the parsed destination, the size
  of the copy buffers (the \<^verbatim>\<open>int\<close> \<^verbatim>\<open>bufSize\<close> of main.go 48-52, the \<^verbatim>\<open>uint64\<close>
  \<^verbatim>\<open>*bufSize\<close> of main.go 186 and part_001 35; part_000 has a constant) and the work
  list (\<^verbatim>\<open>files\<close>, in part_001 the tokens of the list file's scanner).
\<close>

record config =
  cfg_version :: version
  cfg_host :: host
  cfg_n :: int
  cfg_verbose :: bool
  cfg_gcInterval :: int
  cfg_src :: string
  cfg_dest :: url
  cfg_bufSize :: int
  cfg_files :: "string list"

text \<open>
  The argument of \<^verbatim>\<open>os.Open\<close>: \<^verbatim>\<open>f\<close> in part_000 (line 98),
  \<^verbatim>\<open>filepath.Join(src, f)\<close> in main.go (line 108) and \<^verbatim>\<open>filepath.Join(*dir, f)\<close>
  in part_001 (line 124).
\<close>

definition local_path :: "config \<Rightarrow> string \<Rightarrow> string" where
  "local_path cfg f =
     (case cfg_version cfg of
        Part000 \<Rightarrow> f
      | MainGo \<Rightarrow> filepath_Join (cfg_host cfg) [cfg_src cfg, f]
      | Part001 \<Rightarrow> filepath_Join (cfg_host cfg) [cfg_src cfg, f])"

text \<open>
  The object name: \<^verbatim>\<open>path.Join(dest.Path, filepath.ToSlash(f))\<close> in part_000 (line
  104), \<^verbatim>\<open>path.Join(dest.Path[1:], filepath.ToSlash(f))\<close> in main.go (line 114) and
  part_001 (line 130). The slice expression \<^verbatim>\<open>dest.Path[1:]\<close> panics on the empty
  path; \<open>None\<close> is that panic.
\<close>

definition object_name :: "config \<Rightarrow> string \<Rightarrow> string option" where
  "object_name cfg f =
     (case cfg_version cfg of
        Part000 \<Rightarrow> Some (path_Join [Path (cfg_dest cfg), filepath_ToSlash (cfg_host cfg) f])
      | MainGo \<Rightarrow>
          if Path (cfg_dest cfg) = [] then None
          else Some (path_Join [drop 1 (Path (cfg_dest cfg)), filepath_ToSlash (cfg_host cfg) f])
      | Part001 \<Rightarrow>
          if Path (cfg_dest cfg) = [] then None
          else Some (path_Join [drop 1 (Path (cfg_dest cfg)), filepath_ToSlash (cfg_host cfg) f]))"

text \<open>\<^verbatim>\<open>countWidth := len(strconv.Itoa(len(files)))\<close> (main.go 94, part_000 84).\<close>

definition countWidth :: "config \<Rightarrow> nat" where
  "countWidth cfg = length (strconv_Itoa (int (length (cfg_files cfg))))"

text \<open>
  The first field of the verbose line: \<^verbatim>\<open>%*d\<close> with \<^verbatim>\<open>countWidth\<close> in part_000
  and main.go, \<^verbatim>\<open>%7d\<close> in part_001.
\<close>

definition count_field :: "config \<Rightarrow> int \<Rightarrow> string" where
  "count_field cfg c =
     (case cfg_version cfg of
        Part000 \<Rightarrow> fmt_d (countWidth cfg) c
      | MainGo \<Rightarrow> fmt_d (countWidth cfg) c
      | Part001 \<Rightarrow> fmt_d 7 c)"

text \<open>\<^verbatim>\<open>"gs://"+path.Join(o.BucketName(), o.ObjectName())\<close>.\<close>

definition destination :: "config \<Rightarrow> string \<Rightarrow> string" where
  "destination cfg name = ''gs://'' @ path_Join [Hostname (cfg_dest cfg), name]"

text \<open>
  The argument of \<^verbatim>\<open>make([]byte, ...)\<close> in the \<^verbatim>\<open>New\<close> of \<^verbatim>\<open>uploadBufPool\<close>:
  \<^verbatim>\<open>16*1024*1024\<close> in part_000 (line 79), \<^verbatim>\<open>bufSize\<close> or \<^verbatim>\<open>*bufSize\<close> in
  main.go (lines 89 and 240) and part_001 (line 104).
\<close>

definition buffer_size :: "config \<Rightarrow> int" where
  "buffer_size cfg =
     (case cfg_version cfg of
        Part000 \<Rightarrow> 16 * 1024 * 1024
      | MainGo \<Rightarrow> cfg_bufSize cfg
      | Part001 \<Rightarrow> cfg_bufSize cfg)"

text \<open>
  \<^verbatim>\<open>make([]byte, n)\<close> panics (\<^verbatim>\<open>makeslice: len out of range\<close>) for a negative length
  and for a length above the runtime's \<^verbatim>\<open>maxAlloc\<close>, which is \<open>2^48\<close> bytes on
  linux/amd64; a \<^verbatim>\<open>uint64\<close> of \<open>2^63\<close> or more is among the latter. Running out of
  memory below that bound is not modelled.
\<close>

definition maxAlloc :: int where
  "maxAlloc = 2 ^ 48"

definition make_panics :: "int \<Rightarrow> bool" where
  "make_panics n = (n < 0 \<or> maxAlloc < n)"

text \<open>Go's \<^verbatim>\<open>%\<close> on integers truncates towards zero.\<close>

definition go_rem :: "int \<Rightarrow> int \<Rightarrow> int" where
  "go_rem a b = sgn a * (\<bar>a\<bar> mod \<bar>b\<bar>)"

text \<open>
  The places of a task between its shared or outside effects, in the order of the
  closure: the \<^verbatim>\<open>select\<close> on \<^verbatim>\<open>ctx.Done()\<close>, \<^verbatim>\<open>os.Open\<close>, the object name and
  \<^verbatim>\<open>NewWriter\<close>, \<^verbatim>\<open>uploadBufPool.Get\<close>, \<^verbatim>\<open>start = time.Now()\<close>,
  \<^verbatim>\<open>io.CopyBuffer\<close>, \<^verbatim>\<open>w.Close\<close>, \<^verbatim>\<open>count.Add(1)\<close>, \<^verbatim>\<open>runtime.GC\<close>,
  \<^verbatim>\<open>log.Printf\<close>, then the deferred calls, last registered first
  (\<^verbatim>\<open>uploadBufPool.Put\<close>, \<^verbatim>\<open>w.Close\<close>, \<^verbatim>\<open>r.Close\<close>), and the return into the
  errgroup.
\<close>

datatype pc =
    Admit | OpenUpload | NewWriter | PoolGet | StartTime | CopyBuffer | WriterClose
  | CountAdd | RunGC | LogPrintf | PoolPut | DeferWriterClose | DeferFileClose | Return

datatype io_event =
    IoOpen string bool
  | IoNewWriter string
  | IoCopy string bool
  | IoWriterClose string bool
  | IoDeferredClose string bool
  | IoFileClose string

record task =
  t_file :: string
  t_pc :: pc
  t_name :: string
  t_buf :: "nat option"
  t_start :: nat
  t_c :: int
  t_err :: "task_error option"

text \<open>The arguments of the verbose \<^verbatim>\<open>log.Printf\<close>, the count already formatted.\<close>

record log_line =
  l_count :: string
  l_dest :: string
  l_elapsed :: nat

text \<open>
  The state the tasks share: the files the loop has not yet passed to \<^verbatim>\<open>eg.Go\<close>,
  the tasks in flight, \<^verbatim>\<open>count\<close> (an \<^verbatim>\<open>atomic.Int64\<close>; its wrap-around after
  \<open>2^63\<close> uploads is not modelled), whether the group's context is cancelled, the
  group's first error, the idle buffers of \<^verbatim>\<open>uploadBufPool\<close>, the number of
  buffers its \<^verbatim>\<open>New\<close> has made (a buffer is named by its number), the buffers the
  pool has let go of, the clock, the calls of \<^verbatim>\<open>runtime.GC\<close>, the lines logged, the
  file and network operations, and whether a task has panicked.
\<close>

record state =
  pending :: "string list"
  running :: "task list"
  counter :: int
  cancelled :: bool
  group_err :: "task_error option"
  pool :: "nat list"
  made :: nat
  dropped :: "nat list"
  clock :: nat
  gc_runs :: nat
  logged :: "log_line list"
  io :: "io_event list"
  panicked :: bool

definition init :: "config \<Rightarrow> state" where
  "init cfg =
     \<lparr>pending = cfg_files cfg, running = [], counter = 0, cancelled = False,
      group_err = None, pool = [], made = 0, dropped = [], clock = 0, gc_runs = 0,
      logged = [], io = [], panicked = False\<rparr>"

definition new_task :: "string \<Rightarrow> task" where
  "new_task f =
     \<lparr>t_file = f, t_pc = Admit, t_name = [], t_buf = None, t_start = 0, t_c = 0,
      t_err = None\<rparr>"

text \<open>
  The line of \<^verbatim>\<open>log.Printf("%7d: -> %s: %s", c, "gs://"+..., time.Now().Sub(start))\<close>
  (part_001 154; \<^verbatim>\<open>%*d\<close> with \<^verbatim>\<open>countWidth\<close> in main.go 138 and part_000 123).
\<close>

definition verbose_line :: "config \<Rightarrow> state \<Rightarrow> task \<Rightarrow> log_line" where
  "verbose_line cfg s t =
     \<lparr>l_count = count_field cfg (t_c t), l_dest = destination cfg (t_name t),
      l_elapsed = clock s - t_start t\<rparr>"

text \<open>
  Where a task goes after the explicit \<^verbatim>\<open>w.Close()\<close> has succeeded: part_000 has
  \<^verbatim>\<open>count.Add(1)\<close> as an argument of the \<^verbatim>\<open>log.Printf\<close> under \<^verbatim>\<open>if *verbose\<close>
  (lines 122-124) and has no \<^verbatim>\<open>runtime.GC\<close>; main.go (133-139) and part_001
  (149-155) always run \<^verbatim>\<open>c := count.Add(1)\<close>, then the test for
  \<^verbatim>\<open>runtime.GC\<close>, then the \<^verbatim>\<open>log.Printf\<close> under \<^verbatim>\<open>if *verbose\<close>.
\<close>

definition after_close :: "config \<Rightarrow> pc" where
  "after_close cfg =
     (case cfg_version cfg of
        Part000 \<Rightarrow> if cfg_verbose cfg then CountAdd else PoolPut
      | MainGo \<Rightarrow> CountAdd
      | Part001 \<Rightarrow> CountAdd)"

definition after_count :: "config \<Rightarrow> pc" where
  "after_count cfg =
     (case cfg_version cfg of Part000 \<Rightarrow> LogPrintf | MainGo \<Rightarrow> RunGC | Part001 \<Rightarrow> RunGC)"

text \<open>
  One step of a task. \<open>ok\<close> is the outcome of the outside call the task is at: whether
  \<^verbatim>\<open>os.Open\<close>, \<^verbatim>\<open>io.CopyBuffer\<close> or \<^verbatim>\<open>w.Close\<close> succeeds and, at
  \<^verbatim>\<open>uploadBufPool.Get\<close>, whether the pool hands out an idle buffer when it has one
  (a \<^verbatim>\<open>sync.Pool\<close> may ignore its idle items and call \<^verbatim>\<open>New\<close>). The task panics
  in the slice expression \<^verbatim>\<open>dest.Path[1:]\<close> on an empty path, in the \<^verbatim>\<open>make\<close> of
  the pool's \<^verbatim>\<open>New\<close>, and in \<^verbatim>\<open>io.CopyBuffer\<close>, which begins with
  \<^verbatim>\<open>if buf != nil && len(buf) == 0 { panic("empty buffer in CopyBuffer") }\<close>.
\<close>

definition pool_New :: "config \<Rightarrow> state \<Rightarrow> task \<Rightarrow> state \<times> task" where
  "pool_New cfg s t =
     (if make_panics (buffer_size cfg) then (s\<lparr>panicked := True\<rparr>, t)
      else (s\<lparr>made := made s + 1\<rparr>, t\<lparr>t_buf := Some (made s), t_pc := StartTime\<rparr>))"

definition task_step :: "config \<Rightarrow> bool \<Rightarrow> state \<Rightarrow> task \<Rightarrow> state \<times> task" where
  "task_step cfg ok s t =
     (case t_pc t of
        Admit \<Rightarrow>
          if cancelled s then (s, t\<lparr>t_pc := Return\<rparr>) else (s, t\<lparr>t_pc := OpenUpload\<rparr>)
      | OpenUpload \<Rightarrow>
          if ok
          then (s\<lparr>io := io s @ [IoOpen (local_path cfg (t_file t)) True]\<rparr>,
                t\<lparr>t_pc := NewWriter\<rparr>)
          else (s\<lparr>io := io s @ [IoOpen (local_path cfg (t_file t)) False]\<rparr>,
                t\<lparr>t_err := Some OpenUploadFile, t_pc := Return\<rparr>)
      | NewWriter \<Rightarrow>
          (case object_name cfg (t_file t) of
             None \<Rightarrow> (s\<lparr>panicked := True\<rparr>, t)
           | Some name \<Rightarrow>
               (s\<lparr>io := io s @ [IoNewWriter name]\<rparr>, t\<lparr>t_name := name, t_pc := PoolGet\<rparr>))
      | PoolGet \<Rightarrow>
          (case pool s of
             [] \<Rightarrow> pool_New cfg s t
           | b # bs \<Rightarrow>
               if ok then (s\<lparr>pool := bs\<rparr>, t\<lparr>t_buf := Some b, t_pc := StartTime\<rparr>)
               else pool_New cfg s t)
      | StartTime \<Rightarrow>
          (s, t\<lparr>t_start := (if cfg_verbose cfg then clock s else 0), t_pc := CopyBuffer\<rparr>)
      | CopyBuffer \<Rightarrow>
          if buffer_size cfg = 0 then (s\<lparr>panicked := True\<rparr>, t)
          else if ok
          then (s\<lparr>io := io s @ [IoCopy (t_name t) True]\<rparr>, t\<lparr>t_pc := WriterClose\<rparr>)
          else (s\<lparr>io := io s @ [IoCopy (t_name t) False]\<rparr>,
                t\<lparr>t_err := Some Upload, t_pc := PoolPut\<rparr>)
      | WriterClose \<Rightarrow>
          if ok
          then (s\<lparr>io := io s @ [IoWriterClose (t_name t) True]\<rparr>, t\<lparr>t_pc := after_close cfg\<rparr>)
          else (s\<lparr>io := io s @ [IoWriterClose (t_name t) False]\<rparr>,
                t\<lparr>t_err := Some CloseWriter, t_pc := PoolPut\<rparr>)
      | CountAdd \<Rightarrow>
          (s\<lparr>counter := counter s + 1\<rparr>, t\<lparr>t_c := counter s + 1, t_pc := after_count cfg\<rparr>)
      | RunGC \<Rightarrow>
          ((if cfg_gcInterval cfg > 0 \<and> go_rem (t_c t) (cfg_gcInterval cfg) = 0
            then s\<lparr>gc_runs := gc_runs s + 1\<rparr> else s),
           t\<lparr>t_pc := (if cfg_verbose cfg then LogPrintf else PoolPut)\<rparr>)
      | LogPrintf \<Rightarrow>
          (s\<lparr>logged := logged s @ [verbose_line cfg s t]\<rparr>, t\<lparr>t_pc := PoolPut\<rparr>)
      | PoolPut \<Rightarrow>
          ((case t_buf t of None \<Rightarrow> s | Some b \<Rightarrow> s\<lparr>pool := b # pool s\<rparr>),
           t\<lparr>t_buf := None, t_pc := DeferWriterClose\<rparr>)
      | DeferWriterClose \<Rightarrow>
          (s\<lparr>io := io s @ [IoDeferredClose (t_name t) ok]\<rparr>, t\<lparr>t_pc := DeferFileClose\<rparr>)
      | DeferFileClose \<Rightarrow>
          (s\<lparr>io := io s @ [IoFileClose (local_path cfg (t_file t))]\<rparr>, t\<lparr>t_pc := Return\<rparr>)
      | Return \<Rightarrow> (s, t))"

text \<open>
  The end of a goroutine of the errgroup: the first error returned by a task is kept
  and cancels the group's context (\<^verbatim>\<open>g.errOnce.Do\<close>).
\<close>

definition finish :: "task \<Rightarrow> state \<Rightarrow> state" where
  "finish t s =
     (case t_err t of
        None \<Rightarrow> s
      | Some e \<Rightarrow>
          (case group_err s of
             None \<Rightarrow> s\<lparr>group_err := Some e, cancelled := True\<rparr>
           | Some e' \<Rightarrow> s))"

text \<open>
  The moves of the whole program during the uploads. \<open>Go\<close> is the next iteration of
  the loop: \<^verbatim>\<open>eg.Go\<close> starts a task when fewer than \<^verbatim>\<open>*n\<close> are in flight
  (\<^verbatim>\<open>SetLimit\<close> with a negative number sets no limit) and blocks otherwise.
  \<open>Step i ok\<close> is a step of the \<open>i\<close>-th task in flight, \<open>Tick\<close> lets time pass, and
  \<open>PoolDrop\<close> is the \<^verbatim>\<open>sync.Pool\<close> letting go of an idle buffer, which is then
  garbage. Every interleaving of the tasks is a list of such moves. After a panic
  the process is gone.
\<close>

datatype action = Go | Step nat bool | Tick | PoolDrop

definition step :: "config \<Rightarrow> action \<Rightarrow> state \<Rightarrow> state option" where
  "step cfg a s =
     (if panicked s then None
      else case a of
        Go \<Rightarrow>
          (case pending s of
             [] \<Rightarrow> None
           | f # fs \<Rightarrow>
               if cfg_n cfg < 0 \<or> int (length (running s)) < cfg_n cfg
               then Some (s\<lparr>pending := fs, running := running s @ [new_task f]\<rparr>)
               else None)
      | Step i ok \<Rightarrow>
          if i < length (running s) then
            (if t_pc (running s ! i) = Return
             then Some (finish (running s ! i)
                          (s\<lparr>running := take i (running s) @ drop (Suc i) (running s)\<rparr>))
             else case task_step cfg ok s (running s ! i) of
                    (s', t') \<Rightarrow> Some (s'\<lparr>running := (running s)[i := t']\<rparr>))
          else None
      | Tick \<Rightarrow> Some (s\<lparr>clock := clock s + 1\<rparr>)
      | PoolDrop \<Rightarrow>
          (case pool s of
             [] \<Rightarrow> None
           | b # bs \<Rightarrow> Some (s\<lparr>pool := bs, dropped := b # dropped s\<rparr>)))"

fun exec :: "config \<Rightarrow> action list \<Rightarrow> state \<Rightarrow> state option" where
  "exec cfg [] s = Some s"
| "exec cfg (a # as) s = (case step cfg a s of None \<Rightarrow> None | Some s' \<Rightarrow> exec cfg as s')"

text \<open>\<^verbatim>\<open>eg.Wait()\<close> returns when the loop is over and no task is in flight.\<close>

definition finished :: "state \<Rightarrow> bool" where
  "finished s = (pending s = [] \<and> running s = [] \<and> \<not> panicked s)"

text \<open>
  The end of \<^verbatim>\<open>run\<close> in part_001 (lines 159-166): the error of the group, or else
  the error of the list file's scanner.
\<close>

definition run_result :: "bool \<Rightarrow> state \<Rightarrow> run_error option" where
  "run_result scan_error s =
     (case group_err s of
        Some e \<Rightarrow> Some (Uploads e)
      | None \<Rightarrow> if scan_error then Some ScanListFileFailed else None)"

text \<open>
  The buffers checked out of the pool: those its \<^verbatim>\<open>New\<close> has made that are neither
  idle in the pool nor let go by it.
\<close>

definition checked_out :: "state \<Rightarrow> nat" where
  "checked_out s = made s - (length (pool s) + length (dropped s))"

text \<open>The buffer in the variable \<^verbatim>\<open>buf\<close> of a task, and those of all the tasks in flight.\<close>

definition hold :: "task \<Rightarrow> nat list" where
  "hold t = (case t_buf t of None \<Rightarrow> [] | Some b \<Rightarrow> [b])"

definition held :: "state \<Rightarrow> nat list" where
  "held s = concat (map hold (running s))"

text \<open>
  The uploads that have succeeded: the calls of \<^verbatim>\<open>w.Close()\<close> after the copy (main.go
  130, part_000 119, part_001 146) that returned no error. A task gets to that call
  only when its \<^verbatim>\<open>io.CopyBuffer\<close> has returned no error.
\<close>

fun upload_done :: "io_event \<Rightarrow> bool" where
  "upload_done (IoWriterClose name ok) = ok"
| "upload_done (IoOpen path ok) = False"
| "upload_done (IoNewWriter name) = False"
| "upload_done (IoCopy name ok) = False"
| "upload_done (IoDeferredClose name ok) = False"
| "upload_done (IoFileClose path) = False"

definition uploads :: "state \<Rightarrow> nat" where
  "uploads s = length (filter upload_done (io s))"

text \<open>The places of a task, numbered in the order of the closure.\<close>

fun place :: "pc \<Rightarrow> nat" where
  "place Admit = 0"
| "place OpenUpload = 1"
| "place NewWriter = 2"
| "place PoolGet = 3"
| "place StartTime = 4"
| "place CopyBuffer = 5"
| "place WriterClose = 6"
| "place CountAdd = 7"
| "place RunGC = 8"
| "place LogPrintf = 9"
| "place PoolPut = 10"
| "place DeferWriterClose = 11"
| "place DeferFileClose = 12"
| "place Return = 13"



section \<open>Invariants of the uploads\<close>

text \<open>
  The predicates of this section describe the states the uploads can reach. They are
  used in the proofs only; the theorems are stated on \<open>exec\<close>.
\<close>

definition counts :: "config \<Rightarrow> bool" where
  "counts cfg = (cfg_version cfg \<noteq> Part000 \<or> cfg_verbose cfg)"

definition task_ok :: "config \<Rightarrow> int \<Rightarrow> task \<Rightarrow> bool" where
  "task_ok cfg c t =
     (t_file t \<in> set (cfg_files cfg) \<and>
      (t_buf t \<noteq> None) = (t_pc t \<in> {StartTime, CopyBuffer, WriterClose, CountAdd, RunGC, LogPrintf, PoolPut}) \<and>
      (t_pc t \<in> {Admit, OpenUpload, NewWriter, PoolGet, StartTime, CopyBuffer, WriterClose, CountAdd}
         \<longrightarrow> t_c t = 0 \<and> t_err t = None) \<and>
      (t_pc t \<in> {RunGC, LogPrintf} \<longrightarrow> t_err t = None \<and> 0 < t_c t) \<and>
      (t_pc t = RunGC \<longrightarrow> cfg_version cfg \<noteq> Part000) \<and>
      (t_pc t = LogPrintf \<longrightarrow> cfg_verbose cfg) \<and>
      (t_pc t = CountAdd \<longrightarrow> counts cfg) \<and>
      (\<not> counts cfg \<longrightarrow> t_c t = 0) \<and>
      0 \<le> t_c t \<and> t_c t \<le> c \<and>
      (t_pc t \<notin> {Admit, OpenUpload, NewWriter, Return} \<longrightarrow> object_name cfg (t_file t) = Some (t_name t)))"

definition inv_wf :: "config \<Rightarrow> state \<Rightarrow> bool" where
  "inv_wf cfg s =
     (0 \<le> counter s \<and>
      (cancelled s \<longrightarrow> group_err s \<noteq> None) \<and>
      (0 \<le> cfg_n cfg \<longrightarrow> int (length (running s)) \<le> cfg_n cfg) \<and>
      set (pending s) \<subseteq> set (cfg_files cfg) \<and>
      (\<forall>t \<in> set (running s). task_ok cfg (counter s) t))"

definition uncounted :: "state \<Rightarrow> nat" where
  "uncounted s = length (filter (\<lambda>t. t_c t = 0) (running s))"

definition inv_count :: "config \<Rightarrow> state \<Rightarrow> bool" where
  "inv_count cfg s =
     ((\<not> counts cfg \<longrightarrow> counter s = 0) \<and>
      (counts cfg \<and> group_err s = None \<longrightarrow>
         counter s + int (length (pending s)) + int (uncounted s) = int (length (cfg_files cfg)) \<and>
         (\<forall>t \<in> set (running s).
            t_err t = None \<and> t_pc t \<in> {PoolPut, DeferWriterClose, DeferFileClose, Return}
              \<longrightarrow> t_c t \<noteq> 0)))"

definition inv_buf :: "state \<Rightarrow> bool" where
  "inv_buf s = (mset (pool s) + mset (dropped s) + mset (held s) = mset [0..<made s])"

definition at_count :: "task \<Rightarrow> bool" where
  "at_count t = (t_pc t = CountAdd)"

definition inv_up :: "config \<Rightarrow> state \<Rightarrow> bool" where
  "inv_up cfg s =
     (counts cfg \<longrightarrow> counter s + int (length (filter at_count (running s))) = int (uploads s))"

definition inv_time :: "state \<Rightarrow> bool" where
  "inv_time s = (\<forall>t \<in> set (running s). t_start t \<le> clock s)"

definition gc_on :: "config \<Rightarrow> bool" where
  "gc_on cfg = (0 < cfg_gcInterval cfg \<and> cfg_version cfg \<noteq> Part000)"

definition gc_due :: "config \<Rightarrow> task \<Rightarrow> bool" where
  "gc_due cfg t = (t_pc t = RunGC \<and> t_c t mod cfg_gcInterval cfg = 0)"

definition inv_gc :: "config \<Rightarrow> state \<Rightarrow> bool" where
  "inv_gc cfg s =
     (if gc_on cfg
      then int (gc_runs s) + int (length (filter (gc_due cfg) (running s)))
             = counter s div cfg_gcInterval cfg
      else gc_runs s = 0)"

definition unlogged :: "task \<Rightarrow> bool" where
  "unlogged t = (t_pc t \<in> {RunGC, LogPrintf})"

definition line_ok :: "config \<Rightarrow> int \<Rightarrow> log_line \<Rightarrow> bool" where
  "line_ok cfg c l =
     (\<exists>f name k. f \<in> set (cfg_files cfg) \<and> object_name cfg f = Some name \<and>
        0 < k \<and> k \<le> c \<and> l_count l = count_field cfg k \<and> l_dest l = destination cfg name)"

definition inv_log :: "config \<Rightarrow> state \<Rightarrow> bool" where
  "inv_log cfg s =
     ((if cfg_verbose cfg
       then int (length (logged s)) + int (length (filter unlogged (running s))) = counter s
       else logged s = []) \<and>
      (\<forall>l \<in> set (logged s). line_ok cfg (counter s) l))"

text \<open>
  The number of steps of a task in which every call succeeds: the statements every
  revision runs, the increment of the counter where it is run, the test of the
  collection interval in main.go and part_001, and the log line under \<^verbatim>\<open>-v\<close>.
\<close>

definition task_length :: "config \<Rightarrow> nat" where
  "task_length cfg =
     11 + (if counts cfg then 1 else 0) + (if cfg_version cfg \<noteq> Part000 then 1 else 0)
        + (if cfg_verbose cfg then 1 else 0)"

text \<open>
  The number of steps of a task from its \<^verbatim>\<open>io.CopyBuffer\<close> up to and including its
  deferred \<^verbatim>\<open>uploadBufPool.Put\<close>, when the copy and the close succeed.
\<close>

definition upload_length :: "config \<Rightarrow> nat" where
  "upload_length cfg =
     3 + (if counts cfg then 1 else 0) + (if cfg_version cfg \<noteq> Part000 then 1 else 0)
       + (if cfg_verbose cfg then 1 else 0)"

text \<open>
  The schedule that starts the files one at a time and runs each task to its end, all
  calls succeeding, before the next file is started.
\<close>

definition in_turn :: "config \<Rightarrow> string list \<Rightarrow> action list" where
  "in_turn cfg fs = concat (map (\<lambda>f. Go # replicate (task_length cfg) (Step 0 True)) fs)"

text \<open>
  A plain path element: not empty, without a slash, and neither \<open>.\<close> nor \<open>..\<close>; these
  are the elements \<^verbatim>\<open>path.Clean\<close> copies unchanged.
\<close>

definition plain :: "string \<Rightarrow> bool" where
  "plain c = (c \<noteq> [] \<and> slash \<notin> set c \<and> c \<noteq> [dot] \<and> c \<noteq> [dot, dot])"

section \<open>Concrete runs\<close>

text \<open>
  The scenario of the specification: the files \<^verbatim>\<open>a.txt\<close>, \<^verbatim>\<open>b/c.txt\<close> and
  \<^verbatim>\<open>d.bin\<close> of a directory, the destination \<^verbatim>\<open>gs://bucket/prefix\<close>, two tasks at
  a time, buffers of 512 KiB, on a Unix host, for a given revision, verbosity and
  reclamation interval.
\<close>

definition scenario :: "version \<Rightarrow> bool \<Rightarrow> int \<Rightarrow> config" where
  "scenario v verbose gc =
     \<lparr>cfg_version = v, cfg_host = unix_host, cfg_n = 2, cfg_verbose = verbose,
      cfg_gcInterval = gc, cfg_src = ''dir'',
      cfg_dest = \<lparr>Scheme = ''gs'', Hostname = ''bucket'', Path = ''/prefix''\<rparr>,
      cfg_bufSize = 512 * 1024,
      cfg_files = [''a.txt'', ''b/c.txt'', ''d.bin'']\<rparr>"

text \<open>
  A schedule of the scenario in which every outside call succeeds: two tasks are
  started, the first runs to its end (\<open>k\<close> steps), the third file is started, and
  the remaining two tasks run to their ends one after the other.
\<close>

definition one_by_one :: "nat \<Rightarrow> action list" where
  "one_by_one k =
     [Go, Go] @ replicate k (Step 0 True) @ [Go, Tick] @ replicate k (Step 0 True)
       @ replicate k (Step 0 True)"

text \<open>
  The command line \<^verbatim>\<open>gcs-upload -l list gs://bucket/prefix\<close>, with or without
  \<^verbatim>\<open>-shuffle\<close> and with a given \<^verbatim>\<open>-d\<close>.
\<close>

definition list_flags :: "bool \<Rightarrow> string \<Rightarrow> flags" where
  "list_flags shuffle dir =
     \<lparr>flag_n = 24, flag_v = False, flag_buf = 512 * 1024, flag_chunk = 16 * 1024 * 1024,
      flag_gc = 0, flag_shuffle = shuffle, flag_l = ''list'', flag_d = dir,
      flag_args = [''gs://bucket/prefix'']\<rparr>"

text \<open>A random source that always yields zero.\<close>

definition always_zero :: "nat \<Rightarrow> nat" where
  "always_zero i = 0"

text \<open>A host whose separator is the backslash, as on Windows.\<close>

definition backslash_host :: host where
  "backslash_host = unix_host\<lparr>Separator := CHR 0x5C\<rparr>"

text \<open>The work list \<^verbatim>\<open>run\<close> of part_001 starts its uploads with, if it gets there.\<close>

definition work_list :: "effect list \<times> (run_error + prepared) \<Rightarrow> string list option" where
  "work_list r = (case snd r of Inl e \<Rightarrow> None | Inr p \<Rightarrow> Some (p_tokens p))"

text \<open>What a run is observed by: whether it is over, the group's error and the counter.\<close>

definition outcome :: "state \<Rightarrow> bool \<times> task_error option \<times> int" where
  "outcome s = (finished s, group_err s, counter s)"

text \<open>The buffers alive: those made and not let go by the pool.\<close>

definition live_buffers :: "state \<Rightarrow> nat" where
  "live_buffers s = made s - length (dropped s)"

text \<open>
  A world whose list file \<^verbatim>\<open>list\<close> holds the single line \<^verbatim>\<open>a\<close> followed by two
  carriage returns and a newline.
\<close>

definition cr_world :: world where
  "cr_world =
     \<lparr>ParseRequestURI =
        (\<lambda>u. if u = ''gs://bucket/prefix''
             then Some \<lparr>Scheme = ''gs'', Hostname = ''bucket'', Path = ''/prefix''\<rparr>
             else None),
      file_content = [''list'' \<mapsto> [CHR ''a'', carriage_return, carriage_return, newline]],
      stdin = [],
      WalkDir_files = (\<lambda>d. ([], False)),
      temp_names = [''tmp1''],
      write_fails = (\<lambda>name. False),
      close_fails = (\<lambda>name. False),
      NewClient_ok = True\<rparr>"






text \<open>The first fields of the lines logged.\<close>

definition log_counts :: "state \<Rightarrow> string list" where
  "log_counts s = map l_count (logged s)"

text \<open>The scenario in main.go with \<^verbatim>\<open>-n 1\<close>.\<close>

definition one_at_a_time :: config where
  "one_at_a_time = (scenario MainGo False 0)\<lparr>cfg_n := 1\<rparr>"

text \<open>
  A schedule for one task at a time: the first task runs to its end and puts its
  buffer back, the second task is started and its \<^verbatim>\<open>uploadBufPool.Get\<close> does not
  take the idle buffer.
\<close>

definition ignoring_pool :: "action list" where
  "ignoring_pool =
     [Go] @ replicate 13 (Step 0 True) @ [Go, Step 0 True, Step 0 True, Step 0 True, Step 0 False]"

text \<open>
  A schedule in which \<^verbatim>\<open>os.Open\<close> fails for the first task, which returns its
  error into the group while the second task has not yet passed its \<^verbatim>\<open>select\<close>.
\<close>

definition first_open_fails :: "action list" where
  "first_open_fails = [Go, Go, Step 0 True, Step 0 False, Step 0 True]"

section \<open>Properties of the byte-size parser\<close>

lemma HasSuffix_empty: "strings_HasSuffix x []"
  by (simp add: strings_HasSuffix_def)

lemma Set_units_panic_iff:
  "Set_units us s x = PanicUnreachable \<longleftrightarrow>
     (\<forall>u \<in> set us. \<not> strings_HasSuffix x (fst u))"
  by (induction us s x rule: Set_units.induct) (auto split: sum.splits)

lemma Set_units_first_match:
  "Set_units us s x \<noteq> PanicUnreachable \<Longrightarrow>
   \<exists>suffix unit_value. (suffix, unit_value) \<in> set us \<and> strings_HasSuffix x suffix \<and>
      Set_units us s x =
        (case strconv_ParseUint (strings_TrimSuffix x suffix) of
           Inl err \<Rightarrow> ParseError s err
         | Inr v \<Rightarrow> Assigned (v * unit_value))"
proof (induction us s x rule: Set_units.induct)
  case (1 s x)
  then show ?case by simp
next
  case (2 suffix unit_value us s x)
  show ?case
  proof (cases "strings_HasSuffix x suffix")
    case True
    then have "Set_units ((suffix, unit_value) # us) s x =
        (case strconv_ParseUint (strings_TrimSuffix x suffix) of
           Inl err \<Rightarrow> ParseError s err
         | Inr v \<Rightarrow> Assigned (v * unit_value))"
      by simp
    with True show ?thesis by (intro exI [of _ suffix] exI [of _ unit_value]) simp
  next
    case False
    with 2 obtain suffix' unit_value' where
      "(suffix', unit_value') \<in> set us" "strings_HasSuffix x suffix'"
      "Set_units us s x =
        (case strconv_ParseUint (strings_TrimSuffix x suffix') of
           Inl err \<Rightarrow> ParseError s err
         | Inr v \<Rightarrow> Assigned (v * unit_value'))"
      by auto
    with False show ?thesis
      by (intro exI [of _ suffix'] exI [of _ unit_value']) simp
  qed
qed

lemma last_unit_matches: "strings_HasSuffix x (fst (last bytesUnits))"
  by (simp add: bytesUnits_def HasSuffix_empty)

lemma Set_units_total: "Set_units bytesUnits s x \<noteq> PanicUnreachable"
proof -
  have "last bytesUnits \<in> set bytesUnits"
    by (simp add: bytesUnits_def)
  with last_unit_matches [of x] show ?thesis
    unfolding Set_units_panic_iff by blast
qed

text \<open>
  Claim C9. \<^verbatim>\<open>bytesValue.Set\<close> never reaches \<^verbatim>\<open>panic("unreachable")\<close>: for every
  input string the last entry of the unit table, the empty suffix, matches the
  lowered input, so the loop always returns from some entry of the table: it
  either assigns the parsed number times that entry's unit, or returns the
  error of \<^verbatim>\<open>strconv.ParseUint\<close> on the input without that entry's suffix.
\<close>

theorem bytesValue_Set_never_panics:
  "fst (last bytesUnits) = [] \<and>
   strings_HasSuffix (strings_ToLower s) (fst (last bytesUnits)) \<and>
   bytesValue_Set s \<noteq> PanicUnreachable \<and>
   (\<exists>suffix unit_value.
      (suffix, unit_value) \<in> set bytesUnits \<and>
      strings_HasSuffix (strings_ToLower s) suffix \<and>
      bytesValue_Set s =
        (case strconv_ParseUint (strings_TrimSuffix (strings_ToLower s) suffix) of
           Inl err \<Rightarrow> ParseError s err
         | Inr v \<Rightarrow> Assigned (v * unit_value)))"
proof -
  have "fst (last bytesUnits) = []"
    by (simp add: bytesUnits_def)
  moreover note last_unit_matches [of "strings_ToLower s"]
  moreover have total: "bytesValue_Set s \<noteq> PanicUnreachable"
    unfolding bytesValue_Set_def by (rule Set_units_total)
  moreover from total have "\<exists>suffix unit_value.
      (suffix, unit_value) \<in> set bytesUnits \<and>
      strings_HasSuffix (strings_ToLower s) suffix \<and>
      bytesValue_Set s =
        (case strconv_ParseUint (strings_TrimSuffix (strings_ToLower s) suffix) of
           Inl err \<Rightarrow> ParseError s err
         | Inr v \<Rightarrow> Assigned (v * unit_value))"
    unfolding bytesValue_Set_def by (rule Set_units_first_match)
  ultimately show ?thesis by blast
qed

text \<open>
  The loop of \<^verbatim>\<open>bytesValue.Set\<close> returns from an entry of the unit table for every
  string \<open>x\<close> in the place of the lowered input: whatever \<^verbatim>\<open>strings.ToLower\<close> does
  to the letters outside ASCII, \<^verbatim>\<open>panic("unreachable")\<close> is not reached.
\<close>

theorem Set_never_panics_for_any_lowering:
  "Set_units bytesUnits s x \<noteq> PanicUnreachable \<and>
   (\<exists>suffix unit_value.
      (suffix, unit_value) \<in> set bytesUnits \<and> strings_HasSuffix x suffix \<and>
      Set_units bytesUnits s x =
        (case strconv_ParseUint (strings_TrimSuffix x suffix) of
           Inl err \<Rightarrow> ParseError s err
         | Inr v \<Rightarrow> Assigned (v * unit_value)))"
proof -
  have total: "Set_units bytesUnits s x \<noteq> PanicUnreachable"
    by (rule Set_units_total)
  from Set_units_first_match [OF this] total show ?thesis
    by simp
qed

section \<open>Properties of the path functions\<close>

lemma dot_neq_slash: "dot \<noteq> slash"
  by (simp add: dot_def slash_def)

lemma takeWhile_snoc_slash:
  "takeWhile (\<lambda>b. b \<noteq> slash) (cs @ [slash]) = takeWhile (\<lambda>b. b \<noteq> slash) cs"
  by (induction cs) auto

lemma dropWhile_snoc_slash:
  "dropWhile (\<lambda>b. b \<noteq> slash) (cs @ [slash]) = dropWhile (\<lambda>b. b \<noteq> slash) cs @ [slash]"
  by (induction cs) auto

text \<open>A slash at the end of a path does not change what \<^verbatim>\<open>path.Clean\<close> returns.\<close>

lemma clean_loop_trailing_slash:
  "clean_loop rooted dotdot out (p @ [slash]) = clean_loop rooted dotdot out p"
proof (induction rooted dotdot out p rule: clean_loop.induct)
  case (1 rooted dotdot out)
  then show ?case by simp
next
  case (2 rooted dotdot out c cs)
  show ?case
  proof (cases "cs = []")
    case True
    then show ?thesis by (simp add: Let_def)
  next
    case False
    with "2" show ?thesis
      by (auto simp add: Let_def takeWhile_snoc_slash dropWhile_snoc_slash hd_append
            dot_neq_slash)
  qed
qed

lemma path_Clean_trailing_slash: "p \<noteq> [] \<Longrightarrow> path_Clean (p @ [slash]) = path_Clean p"
  by (simp add: path_Clean_def clean_loop_trailing_slash hd_append del: clean_loop.simps)

lemma path_Join_empty_last: "path_Join [p, []] = (if p = [] then [] else path_Clean p)"
  by (simp add: path_Join_def path_Clean_trailing_slash)

lemma ToSlash_idem: "filepath_ToSlash h (filepath_ToSlash h p) = filepath_ToSlash h p"
  by (simp add: filepath_ToSlash_def)

section \<open>Steps of the uploads\<close>

lemma task_step_cases [consumes 1, case_names AdmitCancelled Admitted OpenOk OpenFail
    NameOk NamePanic GetNew GetPanic GetIdle Start CopyPanic CopyOk CopyFail CloseOk CloseFail
    Count GC Log Put DeferW DeferR Stay]:
  assumes "task_step cfg ok s t = (s1, t')"
  obtains
    (AdmitCancelled) "t_pc t = Admit" "cancelled s" "s1 = s" "t' = t\<lparr>t_pc := Return\<rparr>"
  | (Admitted) "t_pc t = Admit" "\<not> cancelled s" "s1 = s" "t' = t\<lparr>t_pc := OpenUpload\<rparr>"
  | (OpenOk) "t_pc t = OpenUpload" "ok"
      "s1 = s\<lparr>io := io s @ [IoOpen (local_path cfg (t_file t)) True]\<rparr>"
      "t' = t\<lparr>t_pc := NewWriter\<rparr>"
  | (OpenFail) "t_pc t = OpenUpload" "\<not> ok"
      "s1 = s\<lparr>io := io s @ [IoOpen (local_path cfg (t_file t)) False]\<rparr>"
      "t' = t\<lparr>t_err := Some OpenUploadFile, t_pc := Return\<rparr>"
  | (NameOk) name where "t_pc t = NewWriter" "object_name cfg (t_file t) = Some name"
      "s1 = s\<lparr>io := io s @ [IoNewWriter name]\<rparr>" "t' = t\<lparr>t_name := name, t_pc := PoolGet\<rparr>"
  | (NamePanic) "t_pc t = NewWriter" "object_name cfg (t_file t) = None"
      "s1 = s\<lparr>panicked := True\<rparr>" "t' = t"
  | (GetNew) "t_pc t = PoolGet" "pool s = [] \<or> \<not> ok" "\<not> make_panics (buffer_size cfg)"
      "s1 = s\<lparr>made := made s + 1\<rparr>" "t' = t\<lparr>t_buf := Some (made s), t_pc := StartTime\<rparr>"
  | (GetPanic) "t_pc t = PoolGet" "pool s = [] \<or> \<not> ok" "make_panics (buffer_size cfg)"
      "s1 = s\<lparr>panicked := True\<rparr>" "t' = t"
  | (GetIdle) b bs where "t_pc t = PoolGet" "pool s = b # bs" "ok" "s1 = s\<lparr>pool := bs\<rparr>"
      "t' = t\<lparr>t_buf := Some b, t_pc := StartTime\<rparr>"
  | (Start) "t_pc t = StartTime" "s1 = s"
      "t' = t\<lparr>t_start := (if cfg_verbose cfg then clock s else 0), t_pc := CopyBuffer\<rparr>"
  | (CopyPanic) "t_pc t = CopyBuffer" "buffer_size cfg = 0" "s1 = s\<lparr>panicked := True\<rparr>"
      "t' = t"
  | (CopyOk) "t_pc t = CopyBuffer" "buffer_size cfg \<noteq> 0" "ok"
      "s1 = s\<lparr>io := io s @ [IoCopy (t_name t) True]\<rparr>" "t' = t\<lparr>t_pc := WriterClose\<rparr>"
  | (CopyFail) "t_pc t = CopyBuffer" "buffer_size cfg \<noteq> 0" "\<not> ok"
      "s1 = s\<lparr>io := io s @ [IoCopy (t_name t) False]\<rparr>"
      "t' = t\<lparr>t_err := Some Upload, t_pc := PoolPut\<rparr>"
  | (CloseOk) "t_pc t = WriterClose" "ok"
      "s1 = s\<lparr>io := io s @ [IoWriterClose (t_name t) True]\<rparr>"
      "t' = t\<lparr>t_pc := after_close cfg\<rparr>"
  | (CloseFail) "t_pc t = WriterClose" "\<not> ok"
      "s1 = s\<lparr>io := io s @ [IoWriterClose (t_name t) False]\<rparr>"
      "t' = t\<lparr>t_err := Some CloseWriter, t_pc := PoolPut\<rparr>"
  | (Count) "t_pc t = CountAdd" "s1 = s\<lparr>counter := counter s + 1\<rparr>"
      "t' = t\<lparr>t_c := counter s + 1, t_pc := after_count cfg\<rparr>"
  | (GC) "t_pc t = RunGC"
      "s1 = (if cfg_gcInterval cfg > 0 \<and> go_rem (t_c t) (cfg_gcInterval cfg) = 0
             then s\<lparr>gc_runs := gc_runs s + 1\<rparr> else s)"
      "t' = t\<lparr>t_pc := (if cfg_verbose cfg then LogPrintf else PoolPut)\<rparr>"
  | (Log) "t_pc t = LogPrintf"
      "s1 = s\<lparr>logged := logged s @ [verbose_line cfg s t]\<rparr>"
      "t' = t\<lparr>t_pc := PoolPut\<rparr>"
  | (Put) "t_pc t = PoolPut"
      "s1 = (case t_buf t of None \<Rightarrow> s | Some b \<Rightarrow> s\<lparr>pool := b # pool s\<rparr>)"
      "t' = t\<lparr>t_buf := None, t_pc := DeferWriterClose\<rparr>"
  | (DeferW) "t_pc t = DeferWriterClose"
      "s1 = s\<lparr>io := io s @ [IoDeferredClose (t_name t) ok]\<rparr>" "t' = t\<lparr>t_pc := DeferFileClose\<rparr>"
  | (DeferR) "t_pc t = DeferFileClose"
      "s1 = s\<lparr>io := io s @ [IoFileClose (local_path cfg (t_file t))]\<rparr>"
      "t' = t\<lparr>t_pc := Return\<rparr>"
  | (Stay) "t_pc t = Return" "s1 = s" "t' = t"
proof (cases "t_pc t")
  case Admit
  show ?thesis
  proof (cases "cancelled s")
    case True
    with assms Admit have "s1 = s" "t' = t\<lparr>t_pc := Return\<rparr>"
      by (simp_all add: task_step_def)
    with Admit True show ?thesis by (rule AdmitCancelled)
  next
    case False
    with assms Admit have "s1 = s" "t' = t\<lparr>t_pc := OpenUpload\<rparr>"
      by (simp_all add: task_step_def)
    with Admit False show ?thesis by (rule Admitted)
  qed
next
  case OpenUpload
  show ?thesis
  proof (cases "ok")
    case True
    with assms OpenUpload have "s1 = s\<lparr>io := io s @ [IoOpen (local_path cfg (t_file t)) True]\<rparr>" "t' = t\<lparr>t_pc := NewWriter\<rparr>"
      by (simp_all add: task_step_def)
    with OpenUpload True show ?thesis by (rule OpenOk)
  next
    case False
    with assms OpenUpload have "s1 = s\<lparr>io := io s @ [IoOpen (local_path cfg (t_file t)) False]\<rparr>" "t' = t\<lparr>t_err := Some OpenUploadFile, t_pc := Return\<rparr>"
      by (simp_all add: task_step_def)
    with OpenUpload False show ?thesis by (rule OpenFail)
  qed
next
  case NewWriter
  show ?thesis
  proof (cases "object_name cfg (t_file t)")
    case None
    with assms NewWriter have "s1 = s\<lparr>panicked := True\<rparr>" "t' = t"
      by (simp_all add: task_step_def)
    with NewWriter None show ?thesis by (rule NamePanic)
  next
    case (Some name)
    with assms NewWriter have "s1 = s\<lparr>io := io s @ [IoNewWriter name]\<rparr>"
      "t' = t\<lparr>t_name := name, t_pc := PoolGet\<rparr>"
      by (simp_all add: task_step_def)
    with NewWriter Some show ?thesis by (rule NameOk)
  qed
next
  case PoolGet
  show ?thesis
  proof (cases "pool s = [] \<or> \<not> ok")
    case True
    show ?thesis
    proof (cases "make_panics (buffer_size cfg)")
      case False
      with assms PoolGet True have "s1 = s\<lparr>made := made s + 1\<rparr>"
        "t' = t\<lparr>t_buf := Some (made s), t_pc := StartTime\<rparr>"
        by (auto simp add: task_step_def pool_New_def split: list.splits)
      with PoolGet True False show ?thesis by (rule GetNew)
    next
      case panics: True
      with assms PoolGet True have "s1 = s\<lparr>panicked := True\<rparr>" "t' = t"
        by (auto simp add: task_step_def pool_New_def split: list.splits)
      with PoolGet True panics show ?thesis by (rule GetPanic)
    qed
  next
    case False
    then obtain b bs where idle: "pool s = b # bs" and ok
      by (cases "pool s") auto
    with assms PoolGet have "s1 = s\<lparr>pool := bs\<rparr>" "t' = t\<lparr>t_buf := Some b, t_pc := StartTime\<rparr>"
      by (simp_all add: task_step_def)
    with PoolGet idle \<open>ok\<close> show ?thesis by (rule GetIdle)
  qed
next
  case StartTime
  with assms have "s1 = s" "t' = t\<lparr>t_start := (if cfg_verbose cfg then clock s else 0), t_pc := CopyBuffer\<rparr>"
    by (simp_all add: task_step_def)
  with StartTime show ?thesis by (rule Start)
next
  case CopyBuffer
  show ?thesis
  proof (cases "buffer_size cfg = 0")
    case empty: True
    with assms CopyBuffer have "s1 = s\<lparr>panicked := True\<rparr>" "t' = t"
      by (simp_all add: task_step_def)
    with CopyBuffer empty show ?thesis by (rule CopyPanic)
  next
    case size: False
    show ?thesis
    proof (cases "ok")
      case True
      with assms CopyBuffer size have "s1 = s\<lparr>io := io s @ [IoCopy (t_name t) True]\<rparr>"
        "t' = t\<lparr>t_pc := WriterClose\<rparr>"
        by (simp_all add: task_step_def)
      with CopyBuffer size True show ?thesis by (rule CopyOk)
    next
      case False
      with assms CopyBuffer size have "s1 = s\<lparr>io := io s @ [IoCopy (t_name t) False]\<rparr>"
        "t' = t\<lparr>t_err := Some Upload, t_pc := PoolPut\<rparr>"
        by (simp_all add: task_step_def)
      with CopyBuffer size False show ?thesis by (rule CopyFail)
    qed
  qed
next
  case WriterClose
  show ?thesis
  proof (cases "ok")
    case True
    with assms WriterClose have "s1 = s\<lparr>io := io s @ [IoWriterClose (t_name t) True]\<rparr>" "t' = t\<lparr>t_pc := after_close cfg\<rparr>"
      by (simp_all add: task_step_def)
    with WriterClose True show ?thesis by (rule CloseOk)
  next
    case False
    with assms WriterClose have "s1 = s\<lparr>io := io s @ [IoWriterClose (t_name t) False]\<rparr>" "t' = t\<lparr>t_err := Some CloseWriter, t_pc := PoolPut\<rparr>"
      by (simp_all add: task_step_def)
    with WriterClose False show ?thesis by (rule CloseFail)
  qed
next
  case CountAdd
  with assms have "s1 = s\<lparr>counter := counter s + 1\<rparr>" "t' = t\<lparr>t_c := counter s + 1, t_pc := after_count cfg\<rparr>"
    by (simp_all add: task_step_def)
  with CountAdd show ?thesis by (rule Count)
next
  case RunGC
  with assms have "s1 = (if cfg_gcInterval cfg > 0 \<and> go_rem (t_c t) (cfg_gcInterval cfg) = 0
             then s\<lparr>gc_runs := gc_runs s + 1\<rparr> else s)" "t' = t\<lparr>t_pc := (if cfg_verbose cfg then LogPrintf else PoolPut)\<rparr>"
    by (simp_all add: task_step_def)
  with RunGC show ?thesis by (rule GC)
next
  case LogPrintf
  with assms have "s1 = s\<lparr>logged := logged s @ [verbose_line cfg s t]\<rparr>"
    "t' = t\<lparr>t_pc := PoolPut\<rparr>"
    by (simp_all add: task_step_def)
  with LogPrintf show ?thesis by (rule Log)
next
  case PoolPut
  with assms have "s1 = (case t_buf t of None \<Rightarrow> s | Some b \<Rightarrow> s\<lparr>pool := b # pool s\<rparr>)" "t' = t\<lparr>t_buf := None, t_pc := DeferWriterClose\<rparr>"
    by (simp_all add: task_step_def)
  with PoolPut show ?thesis by (rule Put)
next
  case DeferWriterClose
  with assms have "s1 = s\<lparr>io := io s @ [IoDeferredClose (t_name t) ok]\<rparr>"
    "t' = t\<lparr>t_pc := DeferFileClose\<rparr>"
    by (simp_all add: task_step_def)
  with DeferWriterClose show ?thesis by (rule DeferW)
next
  case DeferFileClose
  with assms have "s1 = s\<lparr>io := io s @ [IoFileClose (local_path cfg (t_file t))]\<rparr>" "t' = t\<lparr>t_pc := Return\<rparr>"
    by (simp_all add: task_step_def)
  with DeferFileClose show ?thesis by (rule DeferR)
next
  case Return
  with assms have "s1 = s" "t' = t"
    by (simp_all add: task_step_def)
  with Return show ?thesis by (rule Stay)
qed

lemma step_cases [consumes 1, case_names Go Finish Task Tick PoolDrop]:
  assumes "step cfg a s = Some s'"
  obtains
    (Go) f fs where "a = Go" "pending s = f # fs"
      "cfg_n cfg < 0 \<or> int (length (running s)) < cfg_n cfg"
      "s' = s\<lparr>pending := fs, running := running s @ [new_task f]\<rparr>"
  | (Finish) i ok where "a = Step i ok" "i < length (running s)"
      "t_pc (running s ! i) = Return"
      "s' = finish (running s ! i)
              (s\<lparr>running := take i (running s) @ drop (Suc i) (running s)\<rparr>)"
  | (Task) i ok s1 t' where "a = Step i ok" "i < length (running s)"
      "t_pc (running s ! i) \<noteq> Return"
      "task_step cfg ok s (running s ! i) = (s1, t')"
      "s' = s1\<lparr>running := (running s)[i := t']\<rparr>"
  | (Tick) "a = Tick" "s' = s\<lparr>clock := clock s + 1\<rparr>"
  | (PoolDrop) b bs where "a = PoolDrop" "pool s = b # bs"
      "s' = s\<lparr>pool := bs, dropped := b # dropped s\<rparr>"
proof (cases a)
  case Go
  with assms obtain f fs where "pending s = f # fs"
    "cfg_n cfg < 0 \<or> int (length (running s)) < cfg_n cfg"
    "s' = s\<lparr>pending := fs, running := running s @ [new_task f]\<rparr>"
    by (auto simp add: step_def split: if_splits list.splits)
  with Go show ?thesis by (rule that(1))
next
  case (Step i ok)
  with assms have i: "i < length (running s)"
    by (auto simp add: step_def split: if_splits)
  show ?thesis
  proof (cases "t_pc (running s ! i) = Return")
    case True
    with assms Step i have "s' = finish (running s ! i)
              (s\<lparr>running := take i (running s) @ drop (Suc i) (running s)\<rparr>)"
      by (auto simp add: step_def split: if_splits)
    with Step i True show ?thesis by (rule that(2))
  next
    case False
    obtain s1 t' where ts: "task_step cfg ok s (running s ! i) = (s1, t')"
      by (cases "task_step cfg ok s (running s ! i)")
    with assms Step i False have "s' = s1\<lparr>running := (running s)[i := t']\<rparr>"
      by (auto simp add: step_def split: if_splits)
    with Step i False ts show ?thesis by (rule that(3))
  qed
next
  case Tick
  with assms have "s' = s\<lparr>clock := clock s + 1\<rparr>"
    by (auto simp add: step_def split: if_splits)
  with Tick show ?thesis by (rule that(4))
next
  case PoolDrop
  with assms obtain b bs where "pool s = b # bs" "s' = s\<lparr>pool := bs, dropped := b # dropped s\<rparr>"
    by (auto simp add: step_def split: if_splits list.splits)
  with PoolDrop show ?thesis by (rule that(5))
qed

lemma step_not_panicked: "step cfg a s = Some s' \<Longrightarrow> \<not> panicked s"
  by (auto simp add: step_def split: if_splits)

lemma exec_invariant:
  assumes "exec cfg acts s = Some s'" and "P s"
    and "\<And>a s s'. P s \<Longrightarrow> step cfg a s = Some s' \<Longrightarrow> P s'"
  shows "P s'"
  using assms(1,2)
proof (induction acts arbitrary: s)
  case Nil
  then show ?case by simp
next
  case (Cons a acts)
  then obtain s1 where "step cfg a s = Some s1" "exec cfg acts s1 = Some s'"
    by (auto split: option.splits)
  with Cons assms(3) show ?case by blast
qed

lemma task_ok_mono: "task_ok cfg c t \<Longrightarrow> c \<le> c' \<Longrightarrow> task_ok cfg c' t"
  by (auto simp add: task_ok_def)

lemma task_ok_new: "f \<in> set (cfg_files cfg) \<Longrightarrow> 0 \<le> c \<Longrightarrow> task_ok cfg c (new_task f)"
  by (simp add: task_ok_def new_task_def)

lemma task_ok_step:
  assumes "task_ok cfg (counter s) t" and "0 \<le> counter s"
    and "task_step cfg ok s t = (s1, t')"
  shows "task_ok cfg (counter s1) t' \<and> counter s \<le> counter s1"
  using assms(3)
  by (cases rule: task_step_cases)
     (use assms(1,2) in \<open>auto simp add: task_ok_def after_close_def after_count_def counts_def
        split: version.splits if_splits\<close>)

lemma task_step_frame:
  assumes "task_step cfg ok s t = (s1, t')"
  shows "running s1 = running s \<and> pending s1 = pending s \<and> cancelled s1 = cancelled s \<and>
    group_err s1 = group_err s \<and> clock s1 = clock s"
  using assms by (cases rule: task_step_cases) (auto split: option.splits)

lemma inv_wf_init: "inv_wf cfg (init cfg)"
  by (simp add: inv_wf_def init_def)

lemma inv_wf_step:
  assumes "inv_wf cfg s" and "step cfg a s = Some s'"
  shows "inv_wf cfg s'"
  using assms(2)
proof (cases rule: step_cases)
  case (Go f fs)
  with assms(1) show ?thesis
    by (auto simp add: inv_wf_def task_ok_new)
next
  case (Finish i ok)
  have "set (take i (running s) @ drop (Suc i) (running s)) \<subseteq> set (running s)"
    by (auto dest: in_set_takeD in_set_dropD)
  with Finish assms(1) show ?thesis
    by (auto simp add: inv_wf_def finish_def split: option.splits)
next
  case (Task i ok s1 t')
  from assms(1) Task(2) have ok_i: "task_ok cfg (counter s) (running s ! i)"
    by (simp add: inv_wf_def)
  from assms(1) have c0: "0 \<le> counter s"
    by (simp add: inv_wf_def)
  from task_ok_step [OF ok_i c0 Task(4)]
  have t': "task_ok cfg (counter s1) t'" and mono: "counter s \<le> counter s1"
    by simp_all
  note frame = task_step_frame [OF Task(4)]
  have "\<forall>t \<in> set ((running s)[i := t']). task_ok cfg (counter s1) t"
  proof
    fix t assume "t \<in> set ((running s)[i := t'])"
    then have "t = t' \<or> t \<in> set (running s)"
      using set_update_subset_insert [of "running s" i t'] by auto
    with t' mono assms(1) show "task_ok cfg (counter s1) t"
      by (auto simp add: inv_wf_def intro: task_ok_mono)
  qed
  with Task frame assms(1) c0 mono show ?thesis
    by (simp add: inv_wf_def)
next
  case Tick
  with assms(1) show ?thesis by (simp add: inv_wf_def)
next
  case (PoolDrop b bs)
  with assms(1) show ?thesis by (simp add: inv_wf_def)
qed

lemma filter_update_length:
  "i < length xs \<Longrightarrow>
   length (filter P (xs[i := y])) + (if P (xs ! i) then 1 else 0)
     = length (filter P xs) + (if P y then 1 else 0)"
proof (induction xs arbitrary: i)
  case Nil
  then show ?case by simp
next
  case (Cons x xs)
  show ?case
  proof (cases i)
    case 0
    then show ?thesis by simp
  next
    case (Suc j)
    with Cons.prems have "j < length xs" by simp
    from Cons.IH [OF this] Suc show ?thesis by simp
  qed
qed

lemma filter_remove_length:
  "i < length xs \<Longrightarrow>
   length (filter P (take i xs @ drop (Suc i) xs)) + (if P (xs ! i) then 1 else 0)
     = length (filter P xs)"
proof (induction xs arbitrary: i)
  case Nil
  then show ?case by simp
next
  case (Cons x xs)
  show ?case
  proof (cases i)
    case 0
    then show ?thesis by simp
  next
    case (Suc j)
    with Cons.prems have "j < length xs" by simp
    from Cons.IH [OF this] Suc show ?thesis by simp
  qed
qed

lemma inv_count_init: "inv_count cfg (init cfg)"
  by (simp add: inv_count_def init_def uncounted_def)

lemma count_task_step:
  assumes "task_ok cfg (counter s) t" and "0 \<le> counter s"
    and "task_step cfg ok s t = (s1, t')"
  shows "counter s1 + (if t_c t' = 0 then 1 else 0) = counter s + (if t_c t = 0 then 1 else 0)"
  using assms(3)
  by (cases rule: task_step_cases)
     (use assms(1,2) in \<open>auto simp add: task_ok_def split: option.splits\<close>)

lemma tail_task_step:
  assumes "task_ok cfg (counter s) t" and "0 \<le> counter s"
    and "cancelled s \<longrightarrow> group_err s \<noteq> None"
    and "task_step cfg ok s t = (s1, t')"
    and "counts cfg" and "group_err s = None"
    and "t_err t = None \<and> t_pc t \<in> {PoolPut, DeferWriterClose, DeferFileClose, Return}
           \<longrightarrow> t_c t \<noteq> 0"
  shows "t_err t' = None \<and> t_pc t' \<in> {PoolPut, DeferWriterClose, DeferFileClose, Return}
           \<longrightarrow> t_c t' \<noteq> 0"
  using assms(4)
  by (cases rule: task_step_cases)
     (use assms(1,2,3,5,6,7) in \<open>auto simp add: task_ok_def after_close_def after_count_def
        counts_def split: version.splits if_splits\<close>)

lemma inv_count_step:
  assumes inv: "inv_count cfg s" and wf: "inv_wf cfg s" and "step cfg a s = Some s'"
  shows "inv_count cfg s'"
  using assms(3)
proof (cases rule: step_cases)
  case (Go f fs)
  with inv show ?thesis
    by (auto simp add: inv_count_def uncounted_def new_task_def)
next
  case (Finish i ok)
  let ?t = "running s ! i"
  have sub: "set (take i (running s) @ drop (Suc i) (running s)) \<subseteq> set (running s)"
    by (auto dest: in_set_takeD in_set_dropD)
  note len = filter_remove_length [OF Finish(2), of "\<lambda>t. t_c t = 0"]
  from Finish(2) have mem: "?t \<in> set (running s)" by simp
  show ?thesis
  proof (cases "t_err ?t")
    case None
    with Finish have s': "s' = s\<lparr>running := take i (running s) @ drop (Suc i) (running s)\<rparr>"
      by (simp add: finish_def)
    have "counts cfg \<and> group_err s = None \<longrightarrow> t_c ?t \<noteq> 0"
      using inv mem None Finish(3) by (auto simp add: inv_count_def)
    with inv s' len sub show ?thesis
      by (auto simp add: inv_count_def uncounted_def)
  next
    case (Some e)
    with Finish have "group_err s' \<noteq> None" "counter s' = counter s"
      by (auto simp add: finish_def split: option.splits)
    with inv show ?thesis
      by (auto simp add: inv_count_def)
  qed
next
  case (Task i ok s1 t')
  let ?t = "running s ! i"
  from wf Task(2) have ok_i: "task_ok cfg (counter s) ?t"
    by (simp add: inv_wf_def)
  from wf have c0: "0 \<le> counter s" and canc: "cancelled s \<longrightarrow> group_err s \<noteq> None"
    by (simp_all add: inv_wf_def)
  note frame = task_step_frame [OF Task(4)]
  note len = filter_update_length [OF Task(2), of "\<lambda>t. t_c t = 0" t']
  note cnt = count_task_step [OF ok_i c0 Task(4)]
  from Task(2) have mem: "?t \<in> set (running s)" by simp
  have s'_fields: "counter s' = counter s1" "pending s' = pending s"
    "group_err s' = group_err s" "running s' = (running s)[i := t']"
    using Task(5) frame by simp_all
  have zero: "counter s' = 0" if "\<not> counts cfg"
  proof -
    from that inv have "counter s = 0" by (simp add: inv_count_def)
    moreover from that ok_i have "t_c ?t = 0" by (simp add: task_ok_def)
    moreover from task_ok_step [OF ok_i c0 Task(4)] that have "t_c t' = 0"
      by (simp add: task_ok_def)
    ultimately show ?thesis using cnt s'_fields by simp
  qed
  have sum: "counter s' + int (length (pending s')) + int (uncounted s')
      = int (length (cfg_files cfg))" if "counts cfg" "group_err s' = None"
  proof -
    from that inv s'_fields
    have "counter s + int (length (pending s)) + int (uncounted s) = int (length (cfg_files cfg))"
      by (simp add: inv_count_def)
    with len cnt s'_fields show ?thesis
      by (auto simp add: uncounted_def split: if_splits)
  qed
  have tail: "t_c t \<noteq> 0" if "counts cfg" "group_err s' = None" "t \<in> set (running s')"
    "t_err t = None" "t_pc t \<in> {PoolPut, DeferWriterClose, DeferFileClose, Return}" for t
  proof -
    from that(3) s'_fields have "t = t' \<or> t \<in> set (running s)"
      using set_update_subset_insert [of "running s" i t'] by auto
    then show ?thesis
    proof
      assume "t = t'"
      have "t_err ?t = None \<and> t_pc ?t \<in> {PoolPut, DeferWriterClose, DeferFileClose, Return}
           \<longrightarrow> t_c ?t \<noteq> 0"
        using inv mem that(1,2) s'_fields by (auto simp add: inv_count_def)
      from tail_task_step [OF ok_i c0 canc Task(4) that(1) _ this] that s'_fields \<open>t = t'\<close>
      show ?thesis by simp
    next
      assume "t \<in> set (running s)"
      with inv that s'_fields show ?thesis by (auto simp add: inv_count_def)
    qed
  qed
  from zero sum tail show ?thesis
    unfolding inv_count_def by blast
next
  case Tick
  with inv show ?thesis by (simp add: inv_count_def uncounted_def)
next
  case (PoolDrop b bs)
  with inv show ?thesis by (simp add: inv_count_def uncounted_def)
qed

lemma div_succ:
  assumes "0 < (N::int)"
  shows "(c + 1) div N = c div N + (if (c + 1) mod N = 0 then 1 else 0)"
proof -
  have decomp: "c = N * (c div N) + c mod N"
    by simp
  have distrib: "N * (c div N + 1) = N * (c div N) + N"
    by (simp add: algebra_simps)
  have r: "0 \<le> c mod N" "c mod N < N"
    using assms by simp_all
  show ?thesis
  proof (cases "c mod N + 1 = N")
    case True
    with decomp distrib have eq: "c + 1 = N * (c div N + 1) + 0"
      by linarith
    have "(c + 1) div N = c div N + 1"
      by (rule int_div_pos_eq [OF eq]) (use assms in simp_all)
    moreover have "(c + 1) mod N = 0"
      by (rule int_mod_pos_eq [OF eq]) (use assms in simp_all)
    ultimately show ?thesis by simp
  next
    case False
    with r have less: "c mod N + 1 < N" by simp
    from decomp have eq: "c + 1 = N * (c div N) + (c mod N + 1)"
      by linarith
    have "(c + 1) div N = c div N"
      by (rule int_div_pos_eq [OF eq]) (use r less in simp_all)
    moreover have "(c + 1) mod N = c mod N + 1"
      by (rule int_mod_pos_eq [OF eq]) (use r less in simp_all)
    ultimately show ?thesis using r by simp
  qed
qed

lemma go_rem_zero_iff: "0 \<le> c \<Longrightarrow> 0 < N \<Longrightarrow> (go_rem c N = 0) = (c mod N = 0)"
  by (cases "c = 0") (simp_all add: go_rem_def sgn_if)

lemma gc_task_step:
  assumes "task_ok cfg (counter s) t" and "0 \<le> counter s"
    and "task_step cfg ok s t = (s1, t')" and "gc_on cfg"
  shows "int (gc_runs s1) + (if gc_due cfg t' then 1 else 0) + counter s div cfg_gcInterval cfg
    = int (gc_runs s) + (if gc_due cfg t then 1 else 0) + counter s1 div cfg_gcInterval cfg"
  using assms(3)
proof (cases rule: task_step_cases)
  case Count
  from assms(4) have N: "0 < cfg_gcInterval cfg" and "after_count cfg = RunGC"
    by (auto simp add: gc_on_def after_count_def split: version.splits)
  with Count div_succ [OF N, of "counter s"] show ?thesis
    by (simp add: gc_due_def)
next
  case GC
  from assms(4) have N: "0 < cfg_gcInterval cfg"
    by (simp add: gc_on_def)
  from assms(1) GC have "0 \<le> t_c t"
    by (simp add: task_ok_def)
  from go_rem_zero_iff [OF this N] GC N show ?thesis
    by (simp add: gc_due_def)
next
  case CloseOk
  with assms(1) show ?thesis
    by (auto simp add: gc_due_def after_close_def split: version.splits)
qed (use assms(1) in \<open>auto simp add: gc_due_def task_ok_def split: option.splits\<close>)

lemma gc_off_task_step:
  assumes "task_ok cfg (counter s) t" and "task_step cfg ok s t = (s1, t')"
    and "\<not> gc_on cfg"
  shows "gc_runs s1 = gc_runs s"
  using assms(2)
  by (cases rule: task_step_cases)
     (use assms(1,3) in \<open>auto simp add: gc_on_def task_ok_def split: option.splits\<close>)

lemma inv_gc_init: "inv_gc cfg (init cfg)"
  by (simp add: inv_gc_def init_def)

lemma inv_gc_step:
  assumes inv: "inv_gc cfg s" and wf: "inv_wf cfg s" and "step cfg a s = Some s'"
  shows "inv_gc cfg s'"
  using assms(3)
proof (cases rule: step_cases)
  case (Go f fs)
  with inv show ?thesis
    by (simp add: inv_gc_def gc_due_def new_task_def)
next
  case (Finish i ok)
  note len = filter_remove_length [OF Finish(2), of "gc_due cfg"]
  from Finish have "gc_runs s' = gc_runs s" "counter s' = counter s"
    "running s' = take i (running s) @ drop (Suc i) (running s)"
    by (auto simp add: finish_def split: option.splits)
  with inv len Finish(3) show ?thesis
    by (simp add: inv_gc_def gc_due_def)
next
  case (Task i ok s1 t')
  let ?t = "running s ! i"
  from wf Task(2) have ok_i: "task_ok cfg (counter s) ?t"
    by (simp add: inv_wf_def)
  from wf have c0: "0 \<le> counter s"
    by (simp add: inv_wf_def)
  note len = filter_update_length [OF Task(2), of "gc_due cfg" t']
  have s'_fields: "counter s' = counter s1" "gc_runs s' = gc_runs s1"
    "running s' = (running s)[i := t']"
    using Task(5) by simp_all
  show ?thesis
  proof (cases "gc_on cfg")
    case True
    from gc_task_step [OF ok_i c0 Task(4) True] inv True len s'_fields show ?thesis
      by (auto simp add: inv_gc_def split: if_splits)
  next
    case False
    from gc_off_task_step [OF ok_i Task(4) False] inv False s'_fields show ?thesis
      by (simp add: inv_gc_def)
  qed
next
  case Tick
  with inv show ?thesis by (simp add: inv_gc_def)
next
  case (PoolDrop b bs)
  with inv show ?thesis by (simp add: inv_gc_def)
qed

lemma line_ok_mono: "line_ok cfg c l \<Longrightarrow> c \<le> c' \<Longrightarrow> line_ok cfg c' l"
  unfolding line_ok_def by (meson order_trans)

lemma log_task_step:
  assumes "task_ok cfg (counter s) t" and "0 \<le> counter s"
    and "task_step cfg ok s t = (s1, t')"
  shows "(cfg_verbose cfg \<longrightarrow>
            int (length (logged s1)) + (if unlogged t' then 1 else 0) + counter s
              = int (length (logged s)) + (if unlogged t then 1 else 0) + counter s1) \<and>
         (\<not> cfg_verbose cfg \<longrightarrow> logged s1 = logged s) \<and>
         (\<forall>l \<in> set (logged s1). l \<in> set (logged s) \<or> line_ok cfg (counter s) l)"
  using assms(3)
proof (cases rule: task_step_cases)
  case Log
  with assms(1) have "line_ok cfg (counter s) (verbose_line cfg s t)"
    unfolding line_ok_def task_ok_def verbose_line_def
    by (intro exI [of _ "t_file t"] exI [of _ "t_name t"] exI [of _ "t_c t"]) simp
  with Log assms(1) show ?thesis
    by (auto simp add: unlogged_def task_ok_def)
next
  case Count
  then show ?thesis
    by (auto simp add: unlogged_def after_count_def split: version.splits)
next
  case CloseOk
  then show ?thesis
    by (auto simp add: unlogged_def after_close_def split: version.splits)
qed (auto simp add: unlogged_def split: option.splits)

lemma inv_log_init: "inv_log cfg (init cfg)"
  by (simp add: inv_log_def init_def)

lemma inv_log_step:
  assumes inv: "inv_log cfg s" and wf: "inv_wf cfg s" and "step cfg a s = Some s'"
  shows "inv_log cfg s'"
  using assms(3)
proof (cases rule: step_cases)
  case (Go f fs)
  with inv show ?thesis
    by (simp add: inv_log_def unlogged_def new_task_def)
next
  case (Finish i ok)
  note len = filter_remove_length [OF Finish(2), of unlogged]
  from Finish have "logged s' = logged s" "counter s' = counter s"
    "running s' = take i (running s) @ drop (Suc i) (running s)"
    by (auto simp add: finish_def split: option.splits)
  with inv len Finish(3) show ?thesis
    by (simp add: inv_log_def unlogged_def)
next
  case (Task i ok s1 t')
  let ?t = "running s ! i"
  from wf Task(2) have ok_i: "task_ok cfg (counter s) ?t"
    by (simp add: inv_wf_def)
  from wf have c0: "0 \<le> counter s"
    by (simp add: inv_wf_def)
  note len = filter_update_length [OF Task(2), of unlogged t']
  note ts = log_task_step [OF ok_i c0 Task(4)]
  from task_ok_step [OF ok_i c0 Task(4)] have mono: "counter s \<le> counter s1"
    by simp
  have s'_fields: "counter s' = counter s1" "logged s' = logged s1"
    "running s' = (running s)[i := t']"
    using Task(5) by simp_all
  have lines: "\<forall>l \<in> set (logged s'). line_ok cfg (counter s') l"
  proof
    fix l assume "l \<in> set (logged s')"
    with ts s'_fields have "l \<in> set (logged s) \<or> line_ok cfg (counter s) l"
      by simp
    with inv have "line_ok cfg (counter s) l"
      by (auto simp add: inv_log_def)
    with mono s'_fields show "line_ok cfg (counter s') l"
      by (simp add: line_ok_mono)
  qed
  have "if cfg_verbose cfg
       then int (length (logged s')) + int (length (filter unlogged (running s'))) = counter s'
       else logged s' = []"
    using ts inv len s'_fields by (auto simp add: inv_log_def split: if_splits)
  with lines show ?thesis
    by (simp add: inv_log_def)
next
  case Tick
  with inv show ?thesis by (simp add: inv_log_def)
next
  case (PoolDrop b bs)
  with inv show ?thesis by (simp add: inv_log_def)
qed

lemma reachable_wf:
  assumes "exec cfg acts (init cfg) = Some s"
  shows "inv_wf cfg s"
  using assms
proof (rule exec_invariant)
  show "inv_wf cfg (init cfg)" by (rule inv_wf_init)
next
  fix a s s'
  assume "inv_wf cfg s" and "step cfg a s = Some s'"
  then show "inv_wf cfg s'" by (rule inv_wf_step)
qed

lemma reachable_count:
  assumes "exec cfg acts (init cfg) = Some s"
  shows "inv_count cfg s"
proof -
  from assms have "inv_wf cfg s \<and> inv_count cfg s"
  proof (rule exec_invariant)
    show "inv_wf cfg (init cfg) \<and> inv_count cfg (init cfg)"
      by (simp add: inv_wf_init inv_count_init)
  next
    fix a s s'
    assume "inv_wf cfg s \<and> inv_count cfg s" and "step cfg a s = Some s'"
    then show "inv_wf cfg s' \<and> inv_count cfg s'"
      by (blast intro: inv_wf_step inv_count_step)
  qed
  then show ?thesis ..
qed

lemma reachable_gc:
  assumes "exec cfg acts (init cfg) = Some s"
  shows "inv_gc cfg s"
proof -
  from assms have "inv_wf cfg s \<and> inv_gc cfg s"
  proof (rule exec_invariant)
    show "inv_wf cfg (init cfg) \<and> inv_gc cfg (init cfg)"
      by (simp add: inv_wf_init inv_gc_init)
  next
    fix a s s'
    assume "inv_wf cfg s \<and> inv_gc cfg s" and "step cfg a s = Some s'"
    then show "inv_wf cfg s' \<and> inv_gc cfg s'"
      by (blast intro: inv_wf_step inv_gc_step)
  qed
  then show ?thesis ..
qed

lemma reachable_log:
  assumes "exec cfg acts (init cfg) = Some s"
  shows "inv_log cfg s"
proof -
  from assms have "inv_wf cfg s \<and> inv_log cfg s"
  proof (rule exec_invariant)
    show "inv_wf cfg (init cfg) \<and> inv_log cfg (init cfg)"
      by (simp add: inv_wf_init inv_log_init)
  next
    fix a s s'
    assume "inv_wf cfg s \<and> inv_log cfg s" and "step cfg a s = Some s'"
    then show "inv_wf cfg s' \<and> inv_log cfg s'"
      by (blast intro: inv_wf_step inv_log_step)
  qed
  then show ?thesis ..
qed

lemma exec_append:
  "exec cfg (as @ bs) s = (case exec cfg as s of None \<Rightarrow> None | Some s' \<Rightarrow> exec cfg bs s')"
  by (induction as arbitrary: s) (auto split: option.splits)

lemma gc_runs_step:
  assumes "step cfg a s = Some s'"
  shows "gc_runs s' = gc_runs s +
    (if \<exists>i ok. a = Step i ok \<and> i < length (running s) \<and> t_pc (running s ! i) = RunGC \<and>
          0 < cfg_gcInterval cfg \<and> go_rem (t_c (running s ! i)) (cfg_gcInterval cfg) = 0
     then 1 else 0)"
  using assms
proof (cases rule: step_cases)
  case (Task i ok s1 t')
  from Task(4) have "gc_runs s1 = gc_runs s +
      (if t_pc (running s ! i) = RunGC \<and> 0 < cfg_gcInterval cfg \<and>
          go_rem (t_c (running s ! i)) (cfg_gcInterval cfg) = 0 then 1 else 0)"
    by (cases rule: task_step_cases) (auto split: option.splits)
  with Task show ?thesis by auto
next
  case (Finish i ok)
  then show ?thesis by (auto simp add: finish_def split: option.splits)
qed auto

text \<open>
  Claim C7. In main.go and part_001 a task calls \<^verbatim>\<open>runtime.GC\<close> exactly when the
  interval \<open>N\<close> is positive and the number its own \<^verbatim>\<open>count.Add(1)\<close> returned is a
  multiple of \<open>N\<close>; that number is the value of the shared counter right after the
  task's increment. In every state the calls made, together with the tasks that have
  counted to a multiple of \<open>N\<close> and not yet made their call, are \<open>counter div N\<close>
  many, so a finished run has made one call for every \<open>N\<close> completed uploads. With
  \<open>N\<close> zero (or negative) no call is ever made.
\<close>

theorem reclamation_every_N:
  assumes "exec cfg acts (init cfg) = Some s" and "cfg_version cfg \<noteq> Part000"
  shows "(0 < cfg_gcInterval cfg \<longrightarrow>
            int (gc_runs s) + int (length (filter (gc_due cfg) (running s)))
              = counter s div cfg_gcInterval cfg) \<and>
         (0 < cfg_gcInterval cfg \<and> finished s \<longrightarrow>
            int (gc_runs s) = counter s div cfg_gcInterval cfg) \<and>
         (cfg_gcInterval cfg \<le> 0 \<longrightarrow> gc_runs s = 0) \<and>
         (\<forall>a s'. step cfg a s = Some s' \<longrightarrow>
            gc_runs s' = gc_runs s +
              (if \<exists>i ok. a = Step i ok \<and> i < length (running s) \<and>
                    t_pc (running s ! i) = RunGC \<and> 0 < cfg_gcInterval cfg \<and>
                    cfg_gcInterval cfg dvd t_c (running s ! i)
               then 1 else 0)) \<and>
         (\<forall>i ok s'. step cfg (Step i ok) s = Some s' \<and> i < length (running s) \<and>
            t_pc (running s ! i) = CountAdd \<longrightarrow>
            t_c (running s' ! i) = counter s' \<and> counter s' = counter s + 1 \<and>
            t_pc (running s' ! i) = RunGC)"
proof -
  note gc = reachable_gc [OF assms(1)]
  note wf = reachable_wf [OF assms(1)]
  have a: "0 < cfg_gcInterval cfg \<longrightarrow>
            int (gc_runs s) + int (length (filter (gc_due cfg) (running s)))
              = counter s div cfg_gcInterval cfg"
    using gc assms(2) by (simp add: inv_gc_def gc_on_def)
  then have b: "0 < cfg_gcInterval cfg \<and> finished s \<longrightarrow>
            int (gc_runs s) = counter s div cfg_gcInterval cfg"
    by (auto simp add: finished_def)
  have c: "cfg_gcInterval cfg \<le> 0 \<longrightarrow> gc_runs s = 0"
    using gc by (simp add: inv_gc_def gc_on_def)
  have d: "\<forall>a s'. step cfg a s = Some s' \<longrightarrow>
            gc_runs s' = gc_runs s +
              (if \<exists>i ok. a = Step i ok \<and> i < length (running s) \<and>
                    t_pc (running s ! i) = RunGC \<and> 0 < cfg_gcInterval cfg \<and>
                    cfg_gcInterval cfg dvd t_c (running s ! i)
               then 1 else 0)"
  proof (intro allI impI)
    fix a s'
    assume st: "step cfg a s = Some s'"
    have "(go_rem (t_c (running s ! i)) (cfg_gcInterval cfg) = 0)
        = (cfg_gcInterval cfg dvd t_c (running s ! i))"
      if "i < length (running s)" "0 < cfg_gcInterval cfg" for i
    proof -
      from wf that(1) have "0 \<le> t_c (running s ! i)"
        by (simp add: inv_wf_def task_ok_def)
      from go_rem_zero_iff [OF this that(2)] show ?thesis
        by (simp add: dvd_eq_mod_eq_0)
    qed
    with gc_runs_step [OF st] show "gc_runs s' = gc_runs s +
              (if \<exists>i ok. a = Step i ok \<and> i < length (running s) \<and>
                    t_pc (running s ! i) = RunGC \<and> 0 < cfg_gcInterval cfg \<and>
                    cfg_gcInterval cfg dvd t_c (running s ! i)
               then 1 else 0)"
      by (auto split: if_splits)
  qed
  have e: "\<forall>i ok s'. step cfg (Step i ok) s = Some s' \<and> i < length (running s) \<and>
            t_pc (running s ! i) = CountAdd \<longrightarrow>
            t_c (running s' ! i) = counter s' \<and> counter s' = counter s + 1 \<and>
            t_pc (running s' ! i) = RunGC"
  proof (intro allI impI, elim conjE)
    fix i ok s'
    assume st: "step cfg (Step i ok) s = Some s'" and i: "i < length (running s)"
      and pc: "t_pc (running s ! i) = CountAdd"
    from st show "t_c (running s' ! i) = counter s' \<and> counter s' = counter s + 1 \<and>
            t_pc (running s' ! i) = RunGC"
    proof (cases rule: step_cases)
      case (Task j ok' s1 t')
      then have "j = i" by simp
      from Task(4) have "t_pc (running s ! j) = CountAdd \<longrightarrow>
          s1 = s\<lparr>counter := counter s + 1\<rparr> \<and>
          t' = (running s ! j)\<lparr>t_c := counter s + 1, t_pc := after_count cfg\<rparr>"
        by (cases rule: task_step_cases) simp_all
      with Task i pc \<open>j = i\<close> assms(2) show ?thesis
        by (simp add: after_count_def split: version.splits)
    qed (use pc in simp_all)
  qed
  show ?thesis by (intro conjI a b c d e)
qed

theorem reclamation_every_N_witness:
  "map_option gc_runs
     (exec (scenario Part001 False 2) (one_by_one 13) (init (scenario Part001 False 2)))
     = Some 1"
proof -
  have "map_option outcome
     (exec (scenario Part001 False 2) (one_by_one 13) (init (scenario Part001 False 2)))
     = Some (True, None, 3)"
    by code_simp
  then obtain s where run: "exec (scenario Part001 False 2) (one_by_one 13)
      (init (scenario Part001 False 2)) = Some s" and out: "outcome s = (True, None, 3)"
    by auto
  have v: "cfg_version (scenario Part001 False 2) \<noteq> Part000"
    by (simp add: scenario_def)
  from out have "finished s" "counter s = 3"
    by (simp_all add: outcome_def)
  with reclamation_every_N [OF run v] have "int (gc_runs s) = 3 div 2"
    by (simp add: scenario_def)
  then have "gc_runs s = 1" by simp
  with run show ?thesis by simp
qed

text \<open>
  Claim C4. A task whose \<^verbatim>\<open>select\<close> finds the group's context cancelled goes
  straight to its return with \<^verbatim>\<open>nil\<close>: the step leaves the counter, the pool, the
  log, the file and network operations and the group's error as they were and only
  moves the task; the task's return into the errgroup then only takes the task out
  of the tasks in flight. Whatever the outside world would have answered (\<open>ok\<close>,
  \<open>ok'\<close>) plays no part.
\<close>

theorem admission_after_cancel:
  assumes "exec cfg acts (init cfg) = Some s" and "\<not> panicked s"
    and "i < length (running s)" and "t_pc (running s ! i) = Admit" and "cancelled s"
  shows "step cfg (Step i ok) s
           = Some (s\<lparr>running := (running s)[i := (running s ! i)\<lparr>t_pc := Return\<rparr>]\<rparr>) \<and>
         step cfg (Step i ok')
             (s\<lparr>running := (running s)[i := (running s ! i)\<lparr>t_pc := Return\<rparr>]\<rparr>)
           = Some (s\<lparr>running := take i (running s) @ drop (Suc i) (running s)\<rparr>) \<and>
         t_err (running s ! i) = None \<and> t_buf (running s ! i) = None \<and>
         t_c (running s ! i) = 0"
proof -
  from reachable_wf [OF assms(1)] assms(3) have "task_ok cfg (counter s) (running s ! i)"
    by (simp add: inv_wf_def)
  with assms(4) have local: "t_err (running s ! i) = None" "t_buf (running s ! i) = None"
    "t_c (running s ! i) = 0"
    by (simp_all add: task_ok_def)
  from assms(4,5) have "task_step cfg ok s (running s ! i) = (s, (running s ! i)\<lparr>t_pc := Return\<rparr>)"
    by (simp add: task_step_def)
  with assms(2,3,4) have first: "step cfg (Step i ok) s
      = Some (s\<lparr>running := (running s)[i := (running s ! i)\<lparr>t_pc := Return\<rparr>]\<rparr>)"
    by (simp add: step_def)
  from assms(2,3) local have second: "step cfg (Step i ok')
             (s\<lparr>running := (running s)[i := (running s ! i)\<lparr>t_pc := Return\<rparr>]\<rparr>)
           = Some (s\<lparr>running := take i (running s) @ drop (Suc i) (running s)\<rparr>)"
    by (simp add: step_def finish_def)
  from first second local show ?thesis by simp
qed

theorem admission_after_cancel_witness:
  "map_option cancelled
     (exec (scenario MainGo False 0) first_open_fails (init (scenario MainGo False 0)))
     = Some True \<and>
   map_option io
     (exec (scenario MainGo False 0) (first_open_fails @ [Step 0 True, Step 0 True])
        (init (scenario MainGo False 0)))
     = map_option io
         (exec (scenario MainGo False 0) first_open_fails (init (scenario MainGo False 0))) \<and>
   map_option outcome
     (exec (scenario MainGo False 0) (first_open_fails @ [Step 0 True, Step 0 True])
        (init (scenario MainGo False 0)))
     = Some (False, Some OpenUploadFile, 0)"
proof -
  let ?C = "scenario MainGo False 0"
  have "map_option cancelled (exec ?C first_open_fails (init ?C)) = Some True"
    by code_simp
  then obtain s where run: "exec ?C first_open_fails (init ?C) = Some s" and c: "cancelled s"
    by auto
  have "map_option panicked (exec ?C first_open_fails (init ?C)) = Some False"
    and "map_option running (exec ?C first_open_fails (init ?C)) = Some [new_task ''b/c.txt'']"
    and "map_option outcome (exec ?C first_open_fails (init ?C))
           = Some (False, Some OpenUploadFile, 0)"
    and "map_option pending (exec ?C first_open_fails (init ?C)) = Some [''d.bin'']"
    by code_simp+
  with run have p: "\<not> panicked s" and r: "running s = [new_task ''b/c.txt'']"
    and o: "outcome s = (False, Some OpenUploadFile, 0)" and q: "pending s = [''d.bin'']"
    by simp_all
  from r have i: "0 < length (running s)" and pc: "t_pc (running s ! 0) = Admit"
    by (simp_all add: new_task_def)
  from admission_after_cancel [OF run p i pc c, of True True] r
  have "exec ?C [Step 0 True, Step 0 True] s = Some (s\<lparr>running := []\<rparr>)"
    by simp
  with run have "exec ?C (first_open_fails @ [Step 0 True, Step 0 True]) (init ?C)
      = Some (s\<lparr>running := []\<rparr>)"
    by (simp add: exec_append)
  with run c o q show ?thesis
    by (simp add: outcome_def finished_def)
qed

lemma scan_cr_cr: "Scanner_tokens [CHR ''a'', carriage_return, carriage_return, newline]
    = ([[CHR ''a'', carriage_return]], False)"
  by (simp add: newline_def carriage_return_def MaxScanTokenSize_def dropCR_def)

lemma scan_cr: "Scanner_tokens [CHR ''a'', carriage_return, newline] = ([''a''], False)"
  by (simp add: newline_def carriage_return_def MaxScanTokenSize_def dropCR_def)

declare Scanner_tokens.simps [simp del]

text \<open>
  Claim C3, at the input where part_001 breaks it. The list file holds one line,
  \<^verbatim>\<open>a\<close> followed by two carriage returns and the newline. Without \<^verbatim>\<open>-shuffle\<close>
  the work list is the one path \<^verbatim>\<open>a\<close> with a carriage return. With \<^verbatim>\<open>-shuffle\<close>,
  \<^verbatim>\<open>shuffleListFile\<close> reads that path, writes it with a newline to the temporary
  file, and the scanner of the upload loop drops the carriage return: the work list
  is the path \<^verbatim>\<open>a\<close>, which is not a permutation of the list before.
\<close>

theorem shuffle_drops_carriage_return:
  "work_list (run_prepare cr_world always_zero (list_flags False []))
     = Some [[CHR ''a'', carriage_return]] \<and>
   work_list (run_prepare cr_world always_zero (list_flags True [])) = Some [''a''] \<and>
   mset [[CHR ''a'', carriage_return]] \<noteq> mset [''a'']"
proof -
  have plain: "work_list (run_prepare cr_world always_zero (list_flags False []))
     = Some [[CHR ''a'', carriage_return]]"
    by (simp add: work_list_def run_prepare_def list_flags_def cr_world_def dir_stage_def
        shuffle_stage_def openFile_def scan_cr_cr)
  have shuffled: "work_list (run_prepare cr_world always_zero (list_flags True [])) = Some [''a'']"
    by (simp add: work_list_def run_prepare_def list_flags_def cr_world_def dir_stage_def
        shuffle_stage_def shuffleListFile_def openFile_def scan_cr_cr scan_cr rand_Shuffle_def
        list_text_def)
  have differ: "mset [[CHR ''a'', carriage_return]] \<noteq> mset [''a'']"
    by (simp add: carriage_return_def)
  show ?thesis by (intro conjI plain shuffled differ)
qed

lemma length_swap: "length (swap i j xs) = length xs"
  by (simp add: swap_def)

lemma mset_swap_list: "i < length xs \<Longrightarrow> j < length xs \<Longrightarrow> mset (swap i j xs) = mset xs"
  unfolding swap_def by (rule mset_swap)

lemma shuffle_from_perm:
  "i < length xs \<Longrightarrow>
   mset (shuffle_from rnd i xs) = mset xs \<and> length (shuffle_from rnd i xs) = length xs"
proof (induction i arbitrary: xs)
  case 0
  then show ?case by simp
next
  case (Suc i)
  have j: "rnd (Suc i) mod (Suc i + 1) < length xs"
  proof -
    have "rnd (Suc i) mod (Suc i + 1) < Suc i + 1" by simp
    with Suc.prems show ?thesis by linarith
  qed
  let ?ys = "swap (Suc i) (rnd (Suc i) mod (Suc i + 1)) xs"
  from Suc.prems have "i < length ?ys"
    by (simp add: length_swap)
  from Suc.IH [OF this] Suc.prems j show ?case
    by (simp add: mset_swap_list length_swap)
qed

text \<open>
  The in-memory shuffle of every revision (\<^verbatim>\<open>rand.Shuffle\<close> with the swap of two
  elements of \<^verbatim>\<open>files\<close>): whatever the random source yields, the result holds the
  same paths, each as often as before.
\<close>

theorem rand_Shuffle_permutation:
  "mset (rand_Shuffle rnd files) = mset files \<and>
   length (rand_Shuffle rnd files) = length files \<and>
   mset (order_files sequential rnd files) = mset files \<and>
   order_files True rnd files = files"
proof (cases "files = []")
  case True
  then show ?thesis by (simp add: rand_Shuffle_def order_files_def)
next
  case False
  then have "length files - 1 < length files" by simp
  from shuffle_from_perm [OF this, of rnd] show ?thesis
    by (simp add: rand_Shuffle_def order_files_def)
qed

lemma dropCR_subset: "set (dropCR x) \<subseteq> set x \<and> length (dropCR x) \<le> length x"
  by (auto simp add: dropCR_def dest: in_set_butlastD)

lemma Scanner_tokens_shape:
  "t \<in> set (fst (Scanner_tokens data)) \<Longrightarrow> newline \<notin> set t \<and> length t < MaxScanTokenSize"
proof (induction data rule: Scanner_tokens.induct)
  case (1 data)
  let ?line = "takeWhile (\<lambda>b. b \<noteq> newline) data"
  let ?rest = "dropWhile (\<lambda>b. b \<noteq> newline) data"
  have line: "newline \<notin> set ?line"
    by (auto dest: set_takeWhileD)
  show ?case
  proof (cases "data = [] \<or> length ?line \<ge> MaxScanTokenSize")
    case True
    with "1.prems" show ?thesis
      by (auto simp add: Scanner_tokens.simps [of data] split: if_splits)
  next
    case False
    then have small: "length ?line < MaxScanTokenSize" and ne: "data \<noteq> []"
      by simp_all
    from dropCR_subset [of ?line] line small
    have first: "newline \<notin> set (dropCR ?line) \<and> length (dropCR ?line) < MaxScanTokenSize"
      by auto
    show ?thesis
    proof (cases "?rest = []")
      case True
      with "1.prems" ne small first show ?thesis
        by (simp add: Scanner_tokens.simps [of data])
    next
      case False
      with "1.prems" ne small
      have "t = dropCR ?line \<or> t \<in> set (fst (Scanner_tokens (tl ?rest)))"
        by (auto simp add: Scanner_tokens.simps [of data] split: if_splits)
      with first "1.IH" ne small False show ?thesis
        by auto
    qed
  qed
qed

lemma Scanner_tokens_list_text:
  assumes "\<forall>t \<in> set ts. newline \<notin> set t \<and> length t < MaxScanTokenSize \<and>
      (t = [] \<or> last t \<noteq> carriage_return)"
  shows "Scanner_tokens (list_text ts) = (ts, False)"
  using assms
proof (induction ts)
  case Nil
  then show ?case by (simp add: list_text_def Scanner_tokens.simps [of "[]"])
next
  case (Cons t ts)
  then have t: "newline \<notin> set t" "length t < MaxScanTokenSize" "t = [] \<or> last t \<noteq> carriage_return"
    by simp_all
  have unfold_text: "list_text (t # ts) = t @ newline # list_text ts"
    by (simp add: list_text_def)
  from t(1) have take: "takeWhile (\<lambda>b. b \<noteq> newline) (t @ newline # list_text ts) = t"
    by (subst takeWhile_append2) auto
  from t(1) have drop: "dropWhile (\<lambda>b. b \<noteq> newline) (t @ newline # list_text ts)
      = newline # list_text ts"
    by (subst dropWhile_append2) auto
  from t(3) have cr: "dropCR t = t"
    by (auto simp add: dropCR_def)
  from Cons have "Scanner_tokens (list_text ts) = (ts, False)"
    by simp
  with t(2) take drop cr show ?case
    unfolding unfold_text
    by (subst Scanner_tokens.simps) simp
qed

text \<open>
  \<^verbatim>\<open>shuffleListFile\<close> of part_001 on a list file none of whose lines ends, after its
  line end is dropped, in a carriage return: the scanner of the upload loop reads
  from the temporary file a permutation of the lines the list file held.
\<close>

theorem shuffleListFile_permutation:
  assumes "shuffleListFile w rnd listFile = (w', effects, name, None)"
    and "openFile w listFile = Some data"
    and "\<forall>t \<in> set (fst (Scanner_tokens data)). t = [] \<or> last t \<noteq> carriage_return"
  shows "\<exists>text. file_content w' name = Some text \<and> \<not> snd (Scanner_tokens text) \<and>
    mset (fst (Scanner_tokens text)) = mset (fst (Scanner_tokens data))"
proof -
  let ?files = "rand_Shuffle rnd (fst (Scanner_tokens data))"
  have perm: "mset ?files = mset (fst (Scanner_tokens data))"
    using shuffle_from_perm [of "length (fst (Scanner_tokens data)) - 1" "fst (Scanner_tokens data)" rnd]
    by (cases "fst (Scanner_tokens data) = []") (simp_all add: rand_Shuffle_def)
  then have "set ?files = set (fst (Scanner_tokens data))"
    by (rule mset_eq_setD)
  with assms(3) Scanner_tokens_shape [of _ data]
  have "\<forall>t \<in> set ?files. newline \<notin> set t \<and> length t < MaxScanTokenSize \<and>
      (t = [] \<or> last t \<noteq> carriage_return)"
    by auto
  then have scan: "Scanner_tokens (list_text ?files) = (?files, False)"
    by (rule Scanner_tokens_list_text)
  from assms(1,2) have "file_content w' name = Some (list_text ?files)"
    by (auto simp add: shuffleListFile_def Let_def split: if_splits list.splits)
  with scan perm show ?thesis by simp
qed

theorem shuffleListFile_permutation_witness:
  "work_list (run_prepare (cr_world\<lparr>file_content := [''list'' \<mapsto> [CHR ''a'', carriage_return, newline]]\<rparr>)
     always_zero (list_flags True [])) = Some [''a'']"
proof -
  let ?w = "cr_world\<lparr>file_content := [''list'' \<mapsto> [CHR ''a'', carriage_return, newline]]\<rparr>"
  let ?w' = "?w\<lparr>temp_names := [],
      file_content := (file_content ?w)(''tmp1'' \<mapsto> [CHR ''a'', newline])\<rparr>"
  have sh: "shuffleListFile ?w always_zero ''list''
      = (?w', [FsOpen ''list'', FsCreateTemp], ''tmp1'', None)"
    by (simp add: shuffleListFile_def cr_world_def openFile_def scan_cr rand_Shuffle_def
        list_text_def)
  have op: "openFile ?w ''list'' = Some [CHR ''a'', carriage_return, newline]"
    by (simp add: openFile_def cr_world_def)
  have "\<forall>t \<in> set (fst (Scanner_tokens [CHR ''a'', carriage_return, newline])).
      t = [] \<or> last t \<noteq> carriage_return"
    unfolding scan_cr by (simp add: carriage_return_def)
  from shuffleListFile_permutation [OF sh op this]
  have "mset (fst (Scanner_tokens [CHR ''a'', newline])) = mset [''a'']"
    by (simp add: scan_cr)
  then have "fst (Scanner_tokens [CHR ''a'', newline]) = [''a'']"
    by (metis mset_single_iff_right mset.simps(1) mset_eq_length length_0_conv length_Suc_conv
        list.inject mset.simps(2) single_eq_add_mset)
  with sh show ?thesis
    by (simp add: work_list_def run_prepare_def list_flags_def cr_world_def dir_stage_def
        shuffle_stage_def openFile_def)
qed

text \<open>
  Claim C6. In part_001, when both or neither of \<^verbatim>\<open>-d\<close> and \<^verbatim>\<open>-l\<close> are given,
  \<^verbatim>\<open>run\<close> returns a configuration error after printing the usage and nothing else:
  no file is created, walked, opened or removed and no client is made. With one
  destination argument the error is \<^verbatim>\<open>target not found\<close> for neither and
  \<^verbatim>\<open>cannot use both -l and -d\<close> for both. Whenever \<^verbatim>\<open>run\<close> gets as far as the
  uploads, exactly one of the two was given.
\<close>

theorem exactly_one_source:
  "((flag_l fl = []) = (flag_d fl = []) \<longrightarrow>
      fst (run_prepare w rnd fl) = [PrintUsage] \<and>
      snd (run_prepare w rnd fl) \<in> {Inl InvalidArgs, Inl TargetNotFound, Inl CannotUseBoth}) \<and>
   (length (flag_args fl) = 1 \<and> flag_l fl = [] \<and> flag_d fl = [] \<longrightarrow>
      run_prepare w rnd fl = ([PrintUsage], Inl TargetNotFound)) \<and>
   (length (flag_args fl) = 1 \<and> flag_l fl \<noteq> [] \<and> flag_d fl \<noteq> [] \<longrightarrow>
      run_prepare w rnd fl = ([PrintUsage], Inl CannotUseBoth)) \<and>
   (\<forall>effects p. run_prepare w rnd fl = (effects, Inr p) \<longrightarrow>
      (flag_l fl = []) \<noteq> (flag_d fl = []))"
proof -
  have a: "(flag_l fl = []) = (flag_d fl = []) \<longrightarrow>
      fst (run_prepare w rnd fl) = [PrintUsage] \<and>
      snd (run_prepare w rnd fl) \<in> {Inl InvalidArgs, Inl TargetNotFound, Inl CannotUseBoth}"
    by (cases "flag_l fl = []") (simp_all add: run_prepare_def)
  have b: "length (flag_args fl) = 1 \<and> flag_l fl = [] \<and> flag_d fl = [] \<longrightarrow>
      run_prepare w rnd fl = ([PrintUsage], Inl TargetNotFound)"
    by (simp add: run_prepare_def)
  have c: "length (flag_args fl) = 1 \<and> flag_l fl \<noteq> [] \<and> flag_d fl \<noteq> [] \<longrightarrow>
      run_prepare w rnd fl = ([PrintUsage], Inl CannotUseBoth)"
    by (simp add: run_prepare_def)
  have d: "\<forall>effects p. run_prepare w rnd fl = (effects, Inr p) \<longrightarrow>
      (flag_l fl = []) \<noteq> (flag_d fl = [])"
  proof (intro allI impI)
    fix effects p
    assume run: "run_prepare w rnd fl = (effects, Inr p)"
    show "(flag_l fl = []) \<noteq> (flag_d fl = [])"
    proof
      assume "(flag_l fl = []) = (flag_d fl = [])"
      with a have "\<exists>e. snd (run_prepare w rnd fl) = Inl e"
        by auto
      with run show False by simp
    qed
  qed
  show ?thesis by (intro conjI a b c d)
qed

theorem exactly_one_source_witness:
  "run_prepare cr_world always_zero (list_flags False ''dir'') = ([PrintUsage], Inl CannotUseBoth) \<and>
   work_list (run_prepare cr_world always_zero (list_flags False []))
     = Some [[CHR ''a'', carriage_return]] \<and>
   (flag_l (list_flags False []) = []) \<noteq> (flag_d (list_flags False []) = [])"
proof -
  have both: "length (flag_args (list_flags False ''dir'')) = 1 \<and>
      flag_l (list_flags False ''dir'') \<noteq> [] \<and> flag_d (list_flags False ''dir'') \<noteq> []"
    by (simp add: list_flags_def)
  with exactly_one_source [of "list_flags False ''dir''" cr_world always_zero]
  have a: "run_prepare cr_world always_zero (list_flags False ''dir'')
      = ([PrintUsage], Inl CannotUseBoth)"
    by blast
  have b: "work_list (run_prepare cr_world always_zero (list_flags False []))
     = Some [[CHR ''a'', carriage_return]]"
    by (simp add: work_list_def run_prepare_def list_flags_def cr_world_def dir_stage_def
        shuffle_stage_def openFile_def scan_cr_cr)
  then obtain effects p where
    "run_prepare cr_world always_zero (list_flags False []) = (effects, Inr p)"
    by (cases "run_prepare cr_world always_zero (list_flags False [])")
       (auto simp add: work_list_def split: sum.splits)
  with exactly_one_source [of "list_flags False []" cr_world always_zero]
  have c: "(flag_l (list_flags False []) = []) \<noteq> (flag_d (list_flags False []) = [])"
    by blast
  show ?thesis by (intro conjI a b c)
qed

text \<open>
  Claim C2, at the input where part_000 breaks it. With the destination
  \<^verbatim>\<open>gs://bucket/prefix\<close> the path of the URL is \<^verbatim>\<open>/prefix\<close>; part_000 joins the
  whole path with the file, so the object names of the three files of the scenario
  start with a slash. main.go and part_001 drop the first byte of the path and give
  the names of the claim.
\<close>

theorem part000_object_name_leading_slash:
  "map (object_name (scenario Part000 False 0)) (cfg_files (scenario Part000 False 0))
     = [Some ''/prefix/a.txt'', Some ''/prefix/b/c.txt'', Some ''/prefix/d.bin''] \<and>
   map (object_name (scenario MainGo False 0)) (cfg_files (scenario MainGo False 0))
     = [Some ''prefix/a.txt'', Some ''prefix/b/c.txt'', Some ''prefix/d.bin'']"
  by code_simp

text \<open>
  The object name in main.go and part_001: for a destination whose path is a slash
  followed by \<open>prefix\<close>, the name is \<^verbatim>\<open>path.Join\<close> of \<open>prefix\<close> and the file
  with the host's separators turned into slashes; a file written with the host's
  separators and the same file written with slashes get the same name.
\<close>

theorem object_name_joins_prefix:
  assumes "cfg_version cfg \<noteq> Part000" and "Path (cfg_dest cfg) = slash # prefix"
  shows "object_name cfg p = Some (path_Join [prefix, filepath_ToSlash (cfg_host cfg) p]) \<and>
    object_name cfg (filepath_ToSlash (cfg_host cfg) p) = object_name cfg p"
  using assms
  by (cases "cfg_version cfg") (simp_all add: object_name_def ToSlash_idem)

theorem object_name_joins_prefix_witness:
  "object_name ((scenario Part001 False 0)\<lparr>cfg_host := backslash_host\<rparr>)
     (''b'' @ [CHR 0x5C] @ ''c.txt'') = Some ''prefix/b/c.txt'' \<and>
   object_name ((scenario Part001 False 0)\<lparr>cfg_host := backslash_host\<rparr>) ''b/c.txt''
     = Some ''prefix/b/c.txt''"
proof -
  let ?cfg = "(scenario Part001 False 0)\<lparr>cfg_host := backslash_host\<rparr>"
  have v: "cfg_version ?cfg \<noteq> Part000" and p: "Path (cfg_dest ?cfg) = slash # ''prefix''"
    by (simp_all add: scenario_def slash_def)
  have s: "filepath_ToSlash (cfg_host ?cfg) (''b'' @ [CHR 0x5C] @ ''c.txt'') = ''b/c.txt''"
    by (simp add: filepath_ToSlash_def backslash_host_def unix_host_def slash_def)
  have j: "path_Join [''prefix'', ''b/c.txt''] = ''prefix/b/c.txt''"
    by code_simp
  from object_name_joins_prefix [OF v p, of "''b'' @ [CHR 0x5C] @ ''c.txt''"] s j
  have "object_name ?cfg (''b'' @ [CHR 0x5C] @ ''c.txt'') = Some ''prefix/b/c.txt''"
    and "object_name ?cfg ''b/c.txt'' = Some ''prefix/b/c.txt''"
    by simp_all
  then show ?thesis by simp
qed

section \<open>A run in which no call fails\<close>

lemma one_task:
  assumes "running s = []" and "pending s = f # fs" and "\<not> panicked s" and "\<not> cancelled s"
    and "cfg_n cfg \<noteq> 0" and "object_name cfg f = Some name"
    and "\<not> make_panics (buffer_size cfg)" and "buffer_size cfg \<noteq> 0"
  shows "\<exists>s'. exec cfg (Go # replicate (task_length cfg) (Step 0 True)) s = Some s' \<and>
    running s' = [] \<and> pending s' = fs \<and> \<not> panicked s' \<and> \<not> cancelled s' \<and>
    group_err s' = group_err s"
proof -
  from assms(1,5) have lim: "cfg_n cfg < 0 \<or> int (length (running s)) < cfg_n cfg"
    by auto
  show ?thesis
  proof (cases "cfg_version cfg")
    case Part000
    with assms lim show ?thesis
      by (cases "cfg_verbose cfg")
         (simp_all add: task_length_def counts_def eval_nat_numeral step_def task_step_def
            pool_New_def new_task_def after_close_def after_count_def finish_def
            split: list.splits)
  next
    case MainGo
    with assms lim show ?thesis
      by (cases "cfg_verbose cfg")
         (simp_all add: task_length_def counts_def eval_nat_numeral step_def task_step_def
            pool_New_def new_task_def after_close_def after_count_def finish_def
            split: list.splits)
  next
    case Part001
    with assms lim show ?thesis
      by (cases "cfg_verbose cfg")
         (simp_all add: task_length_def counts_def eval_nat_numeral step_def task_step_def
            pool_New_def new_task_def after_close_def after_count_def finish_def
            split: list.splits)
  qed
qed

lemma in_turn_run:
  assumes "running s = []" and "pending s = fs" and "\<not> panicked s" and "\<not> cancelled s"
    and "cfg_n cfg \<noteq> 0" and "\<forall>f \<in> set fs. object_name cfg f \<noteq> None"
    and "\<not> make_panics (buffer_size cfg)" and "buffer_size cfg \<noteq> 0"
  shows "\<exists>s'. exec cfg (in_turn cfg fs) s = Some s' \<and> finished s' \<and>
    group_err s' = group_err s"
  using assms(1,2,3,4,6)
proof (induction fs arbitrary: s)
  case Nil
  then show ?case by (simp add: in_turn_def finished_def)
next
  case (Cons f fs)
  from Cons.prems(5) obtain name where "object_name cfg f = Some name"
    by auto
  from one_task [OF Cons.prems(1,2,3,4) assms(5) this assms(7,8)]
  obtain s1 where first: "exec cfg (Go # replicate (task_length cfg) (Step 0 True)) s = Some s1"
    and s1: "running s1 = []" "pending s1 = fs" "\<not> panicked s1" "\<not> cancelled s1"
      "group_err s1 = group_err s"
    by blast
  from Cons.prems(5) have "\<forall>f \<in> set fs. object_name cfg f \<noteq> None"
    by simp
  from Cons.IH [OF s1(1,2,3,4) this]
  obtain s' where rest: "exec cfg (in_turn cfg fs) s1 = Some s'" "finished s'"
    "group_err s' = group_err s1"
    by blast
  have "in_turn cfg (f # fs)
      = (Go # replicate (task_length cfg) (Step 0 True)) @ in_turn cfg fs"
    by (simp add: in_turn_def)
  with first rest s1(5) show ?case
    by (simp only: exec_append) simp
qed

text \<open>
  A run in which no call fails exists whenever the limit \<^verbatim>\<open>-n\<close> is not zero, the
  object names can be computed (in main.go and part_001 the path of the destination
  must not be empty) and the copy buffers can be made and are not empty: the tasks
  run one after the other, every file is uploaded, the group has no error, and the
  counter ends at the number of files (at zero in part_000 without \<^verbatim>\<open>-v\<close>).
\<close>

theorem complete_run_exists:
  assumes "cfg_n cfg \<noteq> 0" and "cfg_version cfg = Part000 \<or> Path (cfg_dest cfg) \<noteq> []"
    and "0 < buffer_size cfg" and "buffer_size cfg \<le> maxAlloc"
  shows "\<exists>s. exec cfg (in_turn cfg (cfg_files cfg)) (init cfg) = Some s \<and> finished s \<and>
    group_err s = None \<and>
    counter s = (if cfg_version cfg = Part000 \<and> \<not> cfg_verbose cfg then 0
                 else int (length (cfg_files cfg)))"
proof -
  from assms(2) have names: "\<forall>f \<in> set (cfg_files cfg). object_name cfg f \<noteq> None"
    by (cases "cfg_version cfg") (auto simp add: object_name_def)
  have init: "running (init cfg) = []" "pending (init cfg) = cfg_files cfg"
    "\<not> panicked (init cfg)" "\<not> cancelled (init cfg)"
    by (simp_all add: init_def)
  from assms(3,4) have size: "\<not> make_panics (buffer_size cfg)" "buffer_size cfg \<noteq> 0"
    by (simp_all add: make_panics_def)
  from in_turn_run [OF init assms(1) names size]
  obtain s where run: "exec cfg (in_turn cfg (cfg_files cfg)) (init cfg) = Some s"
    and fin: "finished s" and err: "group_err s = None"
    by (auto simp add: init_def)
  from reachable_count [OF run] fin err
  have "counter s = (if cfg_version cfg = Part000 \<and> \<not> cfg_verbose cfg then 0
                 else int (length (cfg_files cfg)))"
    by (auto simp add: inv_count_def finished_def uncounted_def counts_def)
  with run fin err show ?thesis by blast
qed

theorem complete_run_exists_witness:
  "map_option outcome (exec (scenario Part001 True 0)
       (in_turn (scenario Part001 True 0) (cfg_files (scenario Part001 True 0)))
       (init (scenario Part001 True 0)))
     = Some (True, None, 3)"
proof -
  let ?C = "scenario Part001 True 0"
  have "cfg_n ?C \<noteq> 0" and "cfg_version ?C = Part000 \<or> Path (cfg_dest ?C) \<noteq> []"
    and "0 < buffer_size ?C" and "buffer_size ?C \<le> maxAlloc"
    by (simp_all add: scenario_def buffer_size_def maxAlloc_def)
  from complete_run_exists [OF this] show ?thesis
    by (auto simp add: outcome_def scenario_def)
qed

section \<open>Object names of plain paths\<close>

lemma takeWhile_plain:
  assumes "slash \<notin> set xs" and "r = [] \<or> hd r = slash"
  shows "takeWhile (\<lambda>b. b \<noteq> slash) (xs @ r) = xs \<and> dropWhile (\<lambda>b. b \<noteq> slash) (xs @ r) = r"
  using assms
proof (induction xs)
  case Nil
  then show ?case by (cases r) auto
next
  case (Cons x xs)
  then show ?case by auto
qed

lemma clean_loop_element:
  assumes "plain c" and "r = [] \<or> hd r = slash"
  shows "clean_loop rooted dotdot out (c @ r)
    = clean_loop rooted dotdot
        ((if rooted \<and> length out \<noteq> 1 \<or> \<not> rooted \<and> length out \<noteq> 0 then out @ [slash] else out) @ c) r"
proof -
  from assms(1) obtain x xs where c: "c = x # xs"
    by (cases c) (auto simp add: plain_def)
  with assms(1) have x: "x \<noteq> slash" and xs: "slash \<notin> set xs"
    by (auto simp add: plain_def)
  note tw = takeWhile_plain [OF xs assms(2)]
  have single: "\<not> (x = dot \<and> (xs @ r = [] \<or> hd (xs @ r) = slash))"
  proof
    assume a: "x = dot \<and> (xs @ r = [] \<or> hd (xs @ r) = slash)"
    with assms(1) c have "xs \<noteq> []" by (auto simp add: plain_def)
    with a xs show False by (cases xs) auto
  qed
  have double: "\<not> (x = dot \<and> hd (xs @ r) = dot \<and>
      (tl (xs @ r) = [] \<or> hd (tl (xs @ r)) = slash))"
  proof
    assume a: "x = dot \<and> hd (xs @ r) = dot \<and> (tl (xs @ r) = [] \<or> hd (tl (xs @ r)) = slash)"
    with assms(1) c have ne: "xs \<noteq> []" by (auto simp add: plain_def)
    then obtain y ys where ys: "xs = y # ys" by (cases xs) auto
    with a have "y = dot" by simp
    with a assms(1) c ys have "ys \<noteq> []" by (auto simp add: plain_def)
    then obtain z zs where "ys = z # zs" by (cases ys) auto
    with a ys xs show False by auto
  qed
  show ?thesis
    unfolding c append_Cons
    by (subst clean_loop.simps(2)) (simp only: x single double if_False Let_def tw)
qed

lemma clean_loop_plain:
  assumes "\<forall>c \<in> set cs. plain c" and "cs \<noteq> []"
  shows "clean_loop rooted dotdot out (join_slash cs)
    = (if rooted \<and> length out \<noteq> 1 \<or> \<not> rooted \<and> length out \<noteq> 0 then out @ [slash] else out)
        @ join_slash cs"
  using assms
proof (induction cs arbitrary: out)
  case Nil
  then show ?case by simp
next
  case (Cons c cs)
  let ?out = "(if rooted \<and> length out \<noteq> 1 \<or> \<not> rooted \<and> length out \<noteq> 0
               then out @ [slash] else out) @ c"
  from Cons.prems have c: "plain c" by simp
  then have len: "length ?out \<noteq> 0" "rooted \<longrightarrow> length ?out \<noteq> 1"
    by (auto simp add: plain_def)
  show ?case
  proof (cases "cs = []")
    case True
    with clean_loop_element [OF c, of "[]" rooted dotdot out] show ?thesis
      by simp
  next
    case False
    then have js: "join_slash (c # cs) = c @ slash # join_slash cs"
      by (cases cs) simp_all
    from Cons.prems have "\<forall>c \<in> set cs. plain c" by simp
    from Cons.IH [OF this False, of ?out] len
    have "clean_loop rooted dotdot ?out (join_slash cs) = ?out @ slash # join_slash cs"
      by (cases rooted) simp_all
    moreover have "clean_loop rooted dotdot out (c @ slash # join_slash cs)
        = clean_loop rooted dotdot ?out (slash # join_slash cs)"
      by (rule clean_loop_element [OF c]) simp
    ultimately show ?thesis
      unfolding js by simp
  qed
qed

lemma join_slash_plain_head:
  assumes "\<forall>c \<in> set cs. plain c" and "cs \<noteq> []"
  shows "join_slash cs \<noteq> [] \<and> hd (join_slash cs) \<noteq> slash"
proof -
  from assms obtain c cs' where cs: "cs = c # cs'" by (cases cs) auto
  with assms(1) obtain x xs where "c = x # xs" "x \<noteq> slash"
    by (cases c) (auto simp add: plain_def)
  with cs show ?thesis by (cases cs') simp_all
qed

lemma path_Clean_plain:
  assumes "\<forall>c \<in> set cs. plain c" and "cs \<noteq> []"
  shows "path_Clean (join_slash cs) = join_slash cs"
    and "path_Clean (slash # join_slash cs) = slash # join_slash cs"
  using clean_loop_plain [OF assms, of False 0 "[]"] clean_loop_plain [OF assms, of True 1 "[slash]"]
    join_slash_plain_head [OF assms]
  by (simp_all add: path_Clean_def del: clean_loop.simps)

lemma join_slash_append:
  "ps \<noteq> [] \<Longrightarrow> qs \<noteq> [] \<Longrightarrow> join_slash (ps @ qs) = join_slash ps @ slash # join_slash qs"
proof (induction ps)
  case Nil
  then show ?case by simp
next
  case (Cons p ps)
  show ?case
  proof (cases "ps = []")
    case True
    with Cons.prems show ?thesis by (cases qs) simp_all
  next
    case False
    with Cons have "join_slash (ps @ qs) = join_slash ps @ slash # join_slash qs"
      by simp
    with False show ?thesis by (cases ps) simp_all
  qed
qed

lemma path_Join_plain:
  assumes "\<forall>c \<in> set ps. plain c" and "\<forall>c \<in> set qs. plain c" and "qs \<noteq> []"
  shows "path_Join [join_slash ps, join_slash qs] = join_slash (ps @ qs)"
    and "ps \<noteq> [] \<Longrightarrow> path_Join [slash # join_slash ps, join_slash qs] = slash # join_slash (ps @ qs)"
proof -
  have all: "\<forall>c \<in> set (ps @ qs). plain c" using assms by auto
  have ne: "ps @ qs \<noteq> []" using assms(3) by simp
  from join_slash_plain_head [OF assms(2,3)] have q: "join_slash qs \<noteq> []" by simp
  show "path_Join [join_slash ps, join_slash qs] = join_slash (ps @ qs)"
  proof (cases "ps = []")
    case True
    with q path_Clean_plain(1) [OF assms(2,3)] show ?thesis
      by (simp add: path_Join_def)
  next
    case False
    from join_slash_plain_head [OF assms(1) False] have "join_slash ps \<noteq> []" by simp
    with q path_Clean_plain(1) [OF all ne] join_slash_append [OF False assms(3)]
    show ?thesis by (simp add: path_Join_def)
  qed
  show "path_Join [slash # join_slash ps, join_slash qs] = slash # join_slash (ps @ qs)"
    if "ps \<noteq> []"
    using q path_Clean_plain(2) [OF all ne] join_slash_append [OF that assms(3)]
    by (simp add: path_Join_def)
qed

text \<open>
  The object name for a destination prefix and a file made of plain components
  (non-empty, without a slash, neither \<open>.\<close> nor \<open>..\<close>): main.go and part_001 name
  the object by the components of the prefix followed by those of the file, joined
  by slashes; part_000 puts a slash in front of that name.
\<close>

theorem object_name_plain:
  assumes "\<forall>c \<in> set ps. plain c" and "\<forall>c \<in> set qs. plain c"
    and "ps \<noteq> []" and "qs \<noteq> []"
    and "Path (cfg_dest cfg) = slash # join_slash ps"
    and "filepath_ToSlash (cfg_host cfg) f = join_slash qs"
  shows "object_name cfg f =
    Some (if cfg_version cfg = Part000 then slash # join_slash (ps @ qs)
          else join_slash (ps @ qs))"
  using assms(5,6) path_Join_plain(1) [OF assms(1,2,4)] path_Join_plain(2) [OF assms(1,2,4,3)]
  by (cases "cfg_version cfg") (simp_all add: object_name_def)

theorem object_name_plain_witness:
  "object_name (scenario Part000 False 0) ''b/c.txt'' = Some ''/prefix/b/c.txt'' \<and>
   object_name (scenario Part001 False 0) ''b/c.txt'' = Some ''prefix/b/c.txt''"
proof -
  have ps: "\<forall>c \<in> set [''prefix'']. plain c" and qs: "\<forall>c \<in> set [''b'', ''c.txt'']. plain c"
    by (simp_all add: plain_def slash_def dot_def)
  have ne: "[''prefix''] \<noteq> []" "[''b'', ''c.txt''] \<noteq> []"
    by simp_all
  have p: "Path (cfg_dest (scenario v False 0)) = slash # join_slash [''prefix'']" for v
    by (simp add: scenario_def slash_def)
  have f: "filepath_ToSlash (cfg_host (scenario v False 0)) ''b/c.txt''
      = join_slash [''b'', ''c.txt'']" for v
    by (simp add: scenario_def filepath_ToSlash_def unix_host_def slash_def)
  have v: "cfg_version (scenario v False 0) = v" for v
    by (simp add: scenario_def)
  from object_name_plain [OF ps qs ne p f, of Part000] object_name_plain [OF ps qs ne p f, of Part001]
  show ?thesis
    by (simp add: v slash_def)
qed

section \<open>The buffers of the pool\<close>

lemma hold_length: "length (concat (map hold ts)) \<le> length ts"
  by (induction ts) (auto simp add: hold_def split: option.splits)

lemma held_update:
  "i < length ts \<Longrightarrow>
   mset (concat (map hold (ts[i := t']))) + mset (hold (ts ! i))
     = mset (concat (map hold ts)) + mset (hold t')"
proof (induction ts arbitrary: i)
  case Nil
  then show ?case by simp
next
  case (Cons t ts)
  show ?case
  proof (cases i)
    case 0
    then show ?thesis by simp
  next
    case (Suc j)
    with Cons.prems have "j < length ts" by simp
    from Cons.IH [OF this] Suc show ?thesis by simp
  qed
qed

lemma held_remove:
  "i < length ts \<Longrightarrow>
   mset (concat (map hold (take i ts @ drop (Suc i) ts))) + mset (hold (ts ! i))
     = mset (concat (map hold ts))"
proof (induction ts arbitrary: i)
  case Nil
  then show ?case by simp
next
  case (Cons t ts)
  show ?case
  proof (cases i)
    case 0
    then show ?thesis by simp
  next
    case (Suc j)
    with Cons.prems have "j < length ts" by simp
    from Cons.IH [OF this] Suc show ?thesis by (simp add: ac_simps)
  qed
qed

lemma buf_task_step:
  assumes "task_ok cfg (counter s) t" and "task_step cfg ok s t = (s1, t')"
  shows "mset (pool s1) + mset (hold t') + mset [0..<made s]
           = mset (pool s) + mset (hold t) + mset [0..<made s1] \<and>
         dropped s1 = dropped s"
  using assms(2)
  by (cases rule: task_step_cases)
     (use assms(1) in \<open>auto simp add: hold_def task_ok_def split: option.splits\<close>)

lemma inv_buf_init: "inv_buf (init cfg)"
  by (simp add: inv_buf_def init_def held_def)

lemma inv_buf_step:
  assumes inv: "inv_buf s" and wf: "inv_wf cfg s" and "step cfg a s = Some s'"
  shows "inv_buf s'"
  using assms(3)
proof (cases rule: step_cases)
  case (Go f fs)
  with inv show ?thesis
    by (simp add: inv_buf_def held_def hold_def new_task_def)
next
  case (Finish i ok)
  from wf Finish(2) have "task_ok cfg (counter s) (running s ! i)"
    by (simp add: inv_wf_def)
  with Finish(3) have "hold (running s ! i) = []"
    by (simp add: task_ok_def hold_def)
  with held_remove [OF Finish(2)]
  have "mset (concat (map hold (take i (running s) @ drop (Suc i) (running s))))
      = mset (held s)"
    by (simp add: held_def)
  moreover from Finish have "pool s' = pool s" "dropped s' = dropped s" "made s' = made s"
    "running s' = take i (running s) @ drop (Suc i) (running s)"
    by (auto simp add: finish_def split: option.splits)
  ultimately show ?thesis
    using inv by (simp add: inv_buf_def held_def)
next
  case (Task i ok s1 t')
  let ?t = "running s ! i"
  from wf Task(2) have ok_i: "task_ok cfg (counter s) ?t"
    by (simp add: inv_wf_def)
  from buf_task_step [OF ok_i Task(4)]
  have one: "mset (pool s1) + mset (hold t') + mset [0..<made s]
           = mset (pool s) + mset (hold ?t) + mset [0..<made s1]"
    and d: "dropped s1 = dropped s"
    by simp_all
  from held_update [OF Task(2), of t']
  have upd: "mset (concat (map hold ((running s)[i := t']))) + mset (hold ?t)
      = mset (held s) + mset (hold t')"
    by (simp add: held_def)
  from inv have all: "mset (pool s) + mset (dropped s) + mset (held s) = mset [0..<made s]"
    by (simp add: inv_buf_def)
  have s'_fields: "pool s' = pool s1" "dropped s' = dropped s" "made s' = made s1"
    "held s' = concat (map hold ((running s)[i := t']))"
    using Task(5) d by (simp_all add: held_def)
  have "(mset (pool s') + mset (dropped s') + mset (held s'))
          + (mset (hold ?t) + mset [0..<made s])
      = mset (pool s1) + mset (dropped s) + (mset (held s') + mset (hold ?t)) + mset [0..<made s]"
    using s'_fields by (simp add: ac_simps)
  also have "\<dots> = (mset (pool s1) + mset (hold t') + mset [0..<made s])
      + mset (dropped s) + mset (held s)"
    using upd s'_fields by (simp add: ac_simps)
  also have "\<dots> = (mset (pool s) + mset (dropped s) + mset (held s))
      + mset (hold ?t) + mset [0..<made s1]"
    using one by (simp add: ac_simps)
  also have "\<dots> = mset [0..<made s'] + (mset (hold ?t) + mset [0..<made s])"
    using all s'_fields by (simp add: ac_simps)
  finally show ?thesis
    by (simp add: inv_buf_def)
next
  case Tick
  with inv show ?thesis by (simp add: inv_buf_def held_def)
next
  case (PoolDrop b bs)
  with inv show ?thesis by (simp add: inv_buf_def held_def)
qed

lemma reachable_buf:
  assumes "exec cfg acts (init cfg) = Some s"
  shows "inv_buf s"
proof -
  from assms have "inv_wf cfg s \<and> inv_buf s"
  proof (rule exec_invariant)
    show "inv_wf cfg (init cfg) \<and> inv_buf (init cfg)"
      by (simp add: inv_wf_init inv_buf_init)
  next
    fix a s s'
    assume "inv_wf cfg s \<and> inv_buf s" and "step cfg a s = Some s'"
    then show "inv_wf cfg s' \<and> inv_buf s'"
      by (blast intro: inv_wf_step inv_buf_step)
  qed
  then show ?thesis ..
qed

lemma exec_ticks:
  "\<not> panicked s \<Longrightarrow> exec cfg (replicate a Tick) s = Some (s\<lparr>clock := clock s + a\<rparr>)"
proof (induction a arbitrary: s)
  case 0
  then show ?case by simp
next
  case (Suc a)
  from Suc.prems have "step cfg Tick s = Some (s\<lparr>clock := clock s + 1\<rparr>)"
    by (simp add: step_def)
  moreover from Suc.prems have "\<not> panicked (s\<lparr>clock := clock s + 1\<rparr>)"
    by simp
  from Suc.IH [OF this]
  have "exec cfg (replicate a Tick) (s\<lparr>clock := clock s + 1\<rparr>)
      = Some (s\<lparr>clock := clock s + Suc a\<rparr>)"
    by simp
  ultimately show ?case by simp
qed

text \<open>
  Claim C5, as amended. Every buffer the pool's \<^verbatim>\<open>New\<close> has made is at every moment
  in exactly one place: idle in the pool, let go by the pool, or in the variable
  \<^verbatim>\<open>buf\<close> of one task in flight. A task holds a buffer exactly from its
  \<^verbatim>\<open>uploadBufPool.Get\<close> to its deferred \<^verbatim>\<open>uploadBufPool.Put\<close>; each of its steps in
  between keeps the buffer and moves the task on towards the \<^verbatim>\<open>Put\<close>, never past it,
  unless the process panics; a failed copy and a failed close go straight to the
  \<^verbatim>\<open>Put\<close>; the \<^verbatim>\<open>Put\<close> hands the buffer back to the pool; the \<^verbatim>\<open>Get\<close> takes the
  buffer on top of the pool or makes a new one; no other step of a task touches the
  pool, and the loop starts a task, which holds no buffer, only while fewer than
  \<^verbatim>\<open>-n\<close> are in flight. On each of the three exit
  paths (copy error, close error, success) the task's own steps end with its buffer
  on top of the pool. So the buffers checked out are as many as the tasks holding
  one, never more than the tasks in flight, hence never more than a limit \<^verbatim>\<open>-n\<close> that
  is not negative, and when the run is over every buffer made is idle or has been
  let go. (The buffers alive, idle ones included, are not bounded by the limit.)
\<close>

theorem buffers_released:
  assumes "exec cfg acts (init cfg) = Some s"
  shows "mset (pool s) + mset (dropped s) + mset (held s) = mset [0..<made s] \<and>
         checked_out s = length (held s) \<and>
         checked_out s \<le> length (running s) \<and>
         (0 \<le> cfg_n cfg \<longrightarrow> int (checked_out s) \<le> cfg_n cfg) \<and>
         (finished s \<longrightarrow>
            checked_out s = 0 \<and> mset (pool s) + mset (dropped s) = mset [0..<made s]) \<and>
         (\<forall>t \<in> set (running s).
            (t_buf t \<noteq> None) =
              (t_pc t \<in> {StartTime, CopyBuffer, WriterClose, CountAdd, RunGC, LogPrintf, PoolPut})) \<and>
         (\<forall>i ok s'. step cfg (Step i ok) s = Some s' \<and> i < length (running s) \<and>
            t_pc (running s ! i) \<in> {StartTime, CopyBuffer, WriterClose, CountAdd, RunGC, LogPrintf} \<and>
            \<not> panicked s' \<longrightarrow>
            t_buf (running s' ! i) = t_buf (running s ! i) \<and>
            place (t_pc (running s ! i)) < place (t_pc (running s' ! i)) \<and>
            place (t_pc (running s' ! i)) \<le> place PoolPut) \<and>
         (\<forall>i s'. step cfg (Step i False) s = Some s' \<and> i < length (running s) \<and>
            t_pc (running s ! i) \<in> {CopyBuffer, WriterClose} \<and> \<not> panicked s' \<longrightarrow>
            t_pc (running s' ! i) = PoolPut \<and> t_buf (running s' ! i) = t_buf (running s ! i) \<and>
            t_err (running s' ! i) \<noteq> None) \<and>
         (\<forall>i ok s'. step cfg (Step i ok) s = Some s' \<and> i < length (running s) \<and>
            t_pc (running s ! i) = PoolPut \<longrightarrow>
            (\<exists>b. t_buf (running s ! i) = Some b \<and> pool s' = b # pool s \<and>
               t_buf (running s' ! i) = None \<and> t_pc (running s' ! i) = DeferWriterClose)) \<and>
         (\<forall>i ok. i < length (running s) \<and> t_pc (running s ! i) = CopyBuffer \<and>
            buffer_size cfg \<noteq> 0 \<and> \<not> panicked s \<longrightarrow>
            (\<exists>b. t_buf (running s ! i) = Some b \<and>
               map_option pool (exec cfg [Step i False, Step i ok] s) = Some (b # pool s) \<and>
               map_option pool (exec cfg [Step i True, Step i False, Step i ok] s)
                 = Some (b # pool s) \<and>
               map_option pool (exec cfg (replicate (upload_length cfg) (Step i True)) s)
                 = Some (b # pool s))) \<and>
         (\<forall>i ok s'. step cfg (Step i ok) s = Some s' \<and> i < length (running s) \<and>
            t_pc (running s ! i) = PoolGet \<and> \<not> panicked s' \<longrightarrow>
            t_pc (running s' ! i) = StartTime \<and> dropped s' = dropped s \<and>
            (t_buf (running s' ! i) = Some (made s) \<and> made s' = made s + 1 \<and>
               pool s' = pool s \<or>
             (\<exists>b. t_buf (running s' ! i) = Some b \<and> pool s = b # pool s' \<and>
                made s' = made s))) \<and>
         (\<forall>a s'. step cfg a s = Some s' \<and> a \<noteq> PoolDrop \<and>
            (\<nexists>i ok. a = Step i ok \<and> i < length (running s) \<and>
               t_pc (running s ! i) \<in> {PoolGet, PoolPut}) \<longrightarrow>
            pool s' = pool s \<and> made s' = made s \<and> dropped s' = dropped s) \<and>
         (\<forall>s'. step cfg PoolDrop s = Some s' \<longrightarrow>
            (\<exists>b. pool s = b # pool s' \<and> dropped s' = b # dropped s) \<and>
            made s' = made s \<and> running s' = running s) \<and>
         (\<forall>s'. step cfg Go s = Some s' \<longrightarrow>
            (cfg_n cfg < 0 \<or> int (length (running s)) < cfg_n cfg) \<and>
            running s' = running s @ [new_task (hd (pending s))] \<and>
            t_buf (new_task (hd (pending s))) = None)"
proof -
  note wf = reachable_wf [OF assms]
  have own: "s' = (fst (task_step cfg ok s (running s ! i)))
      \<lparr>running := (running s)[i := snd (task_step cfg ok s (running s ! i))]\<rparr>"
    if "step cfg (Step i ok) s = Some s'" "i < length (running s)"
      "t_pc (running s ! i) \<noteq> Return" for i ok s'
    using that by (auto simp add: step_def split: if_splits prod.splits)
  from reachable_buf [OF assms]
  have a: "mset (pool s) + mset (dropped s) + mset (held s) = mset [0..<made s]"
    by (simp add: inv_buf_def)
  then have "size (mset (pool s) + mset (dropped s) + mset (held s)) = size (mset [0..<made s])"
    by simp
  then have b: "checked_out s = length (held s)"
    by (simp add: checked_out_def)
  have c: "checked_out s \<le> length (running s)"
    unfolding b held_def by (rule hold_length)
  have d: "0 \<le> cfg_n cfg \<longrightarrow> int (checked_out s) \<le> cfg_n cfg"
  proof
    assume "0 \<le> cfg_n cfg"
    with wf have "int (length (running s)) \<le> cfg_n cfg"
      by (simp add: inv_wf_def)
    with c show "int (checked_out s) \<le> cfg_n cfg" by linarith
  qed
  have e: "finished s \<longrightarrow>
            checked_out s = 0 \<and> mset (pool s) + mset (dropped s) = mset [0..<made s]"
    using a b by (auto simp add: finished_def held_def)
  have f: "\<forall>t \<in> set (running s).
            (t_buf t \<noteq> None) =
              (t_pc t \<in> {StartTime, CopyBuffer, WriterClose, CountAdd, RunGC, LogPrintf, PoolPut})"
    using wf by (simp add: inv_wf_def task_ok_def)
  have g: "\<forall>i ok s'. step cfg (Step i ok) s = Some s' \<and> i < length (running s) \<and>
            t_pc (running s ! i) \<in> {StartTime, CopyBuffer, WriterClose, CountAdd, RunGC, LogPrintf} \<and>
            \<not> panicked s' \<longrightarrow>
            t_buf (running s' ! i) = t_buf (running s ! i) \<and>
            place (t_pc (running s ! i)) < place (t_pc (running s' ! i)) \<and>
            place (t_pc (running s' ! i)) \<le> place PoolPut"
  proof (intro allI impI, elim conjE)
    fix i ok s'
    assume st: "step cfg (Step i ok) s = Some s'" and i: "i < length (running s)"
      and pc: "t_pc (running s ! i)
        \<in> {StartTime, CopyBuffer, WriterClose, CountAdd, RunGC, LogPrintf}"
      and np: "\<not> panicked s'"
    let ?t = "running s ! i"
    from pc have "t_pc ?t \<noteq> Return" by auto
    note s' = own [OF st i this]
    from np s' have np1: "\<not> panicked (fst (task_step cfg ok s ?t))"
      by simp
    have "t_buf (snd (task_step cfg ok s ?t)) = t_buf ?t \<and>
        place (t_pc ?t) < place (t_pc (snd (task_step cfg ok s ?t))) \<and>
        place (t_pc (snd (task_step cfg ok s ?t))) \<le> place PoolPut"
      using pc np1
      by (cases "t_pc ?t")
         (simp_all add: task_step_def after_close_def after_count_def
            split: version.splits if_splits)
    with s' i
    show "t_buf (running s' ! i) = t_buf (running s ! i) \<and>
            place (t_pc (running s ! i)) < place (t_pc (running s' ! i)) \<and>
            place (t_pc (running s' ! i)) \<le> place PoolPut"
      by simp
  qed
  have h: "\<forall>i s'. step cfg (Step i False) s = Some s' \<and> i < length (running s) \<and>
            t_pc (running s ! i) \<in> {CopyBuffer, WriterClose} \<and> \<not> panicked s' \<longrightarrow>
            t_pc (running s' ! i) = PoolPut \<and> t_buf (running s' ! i) = t_buf (running s ! i) \<and>
            t_err (running s' ! i) \<noteq> None"
  proof (intro allI impI, elim conjE)
    fix i s'
    assume st: "step cfg (Step i False) s = Some s'" and i: "i < length (running s)"
      and pc: "t_pc (running s ! i) \<in> {CopyBuffer, WriterClose}"
      and np: "\<not> panicked s'"
    let ?t = "running s ! i"
    from pc have "t_pc ?t \<noteq> Return" by auto
    note s' = own [OF st i this]
    from np s' have np1: "\<not> panicked (fst (task_step cfg False s ?t))"
      by simp
    have "t_pc (snd (task_step cfg False s ?t)) = PoolPut \<and>
        t_buf (snd (task_step cfg False s ?t)) = t_buf ?t \<and>
        t_err (snd (task_step cfg False s ?t)) \<noteq> None"
      using pc np1
      by (cases "t_pc ?t") (simp_all add: task_step_def split: if_splits)
    with s' i
    show "t_pc (running s' ! i) = PoolPut \<and> t_buf (running s' ! i) = t_buf (running s ! i) \<and>
            t_err (running s' ! i) \<noteq> None"
      by simp
  qed
  have held_some: "\<exists>b. t_buf (running s ! i) = Some b"
    if "i < length (running s)" "t_pc (running s ! i) \<in> {CopyBuffer, PoolPut}" for i
  proof -
    from that(1) have "running s ! i \<in> set (running s)" by simp
    with f that(2) have "t_buf (running s ! i) \<noteq> None" by blast
    then show ?thesis by auto
  qed
  have k: "\<forall>i ok s'. step cfg (Step i ok) s = Some s' \<and> i < length (running s) \<and>
            t_pc (running s ! i) = PoolPut \<longrightarrow>
            (\<exists>b. t_buf (running s ! i) = Some b \<and> pool s' = b # pool s \<and>
               t_buf (running s' ! i) = None \<and> t_pc (running s' ! i) = DeferWriterClose)"
  proof (intro allI impI, elim conjE)
    fix i ok s'
    assume st: "step cfg (Step i ok) s = Some s'" and i: "i < length (running s)"
      and pc: "t_pc (running s ! i) = PoolPut"
    from held_some [OF i] pc obtain b where buf: "t_buf (running s ! i) = Some b"
      by auto
    from pc have "t_pc (running s ! i) \<noteq> Return" by simp
    from own [OF st i this] i pc buf
    show "\<exists>b. t_buf (running s ! i) = Some b \<and> pool s' = b # pool s \<and>
               t_buf (running s' ! i) = None \<and> t_pc (running s' ! i) = DeferWriterClose"
      by (simp add: task_step_def)
  qed
  have l: "\<forall>i ok. i < length (running s) \<and> t_pc (running s ! i) = CopyBuffer \<and>
            buffer_size cfg \<noteq> 0 \<and> \<not> panicked s \<longrightarrow>
            (\<exists>b. t_buf (running s ! i) = Some b \<and>
               map_option pool (exec cfg [Step i False, Step i ok] s) = Some (b # pool s) \<and>
               map_option pool (exec cfg [Step i True, Step i False, Step i ok] s)
                 = Some (b # pool s) \<and>
               map_option pool (exec cfg (replicate (upload_length cfg) (Step i True)) s)
                 = Some (b # pool s))"
  proof (intro allI impI, elim conjE)
    fix i ok
    assume i: "i < length (running s)" and pc: "t_pc (running s ! i) = CopyBuffer"
      and size: "buffer_size cfg \<noteq> 0" and p: "\<not> panicked s"
    from held_some [OF i] pc obtain b where buf: "t_buf (running s ! i) = Some b"
      by auto
    from i pc size p buf
    have errors: "map_option pool (exec cfg [Step i False, Step i ok] s) = Some (b # pool s)"
      "map_option pool (exec cfg [Step i True, Step i False, Step i ok] s) = Some (b # pool s)"
      by (simp_all add: step_def task_step_def)
    from i pc size p buf
    have "map_option pool (exec cfg (replicate (upload_length cfg) (Step i True)) s)
        = Some (b # pool s)"
      by (cases "cfg_version cfg"; cases "cfg_verbose cfg";
          cases "0 < cfg_gcInterval cfg \<and> go_rem (counter s + 1) (cfg_gcInterval cfg) = 0")
         (simp_all add: upload_length_def counts_def eval_nat_numeral step_def task_step_def
            after_close_def after_count_def)
    with buf errors
    show "\<exists>b. t_buf (running s ! i) = Some b \<and>
               map_option pool (exec cfg [Step i False, Step i ok] s) = Some (b # pool s) \<and>
               map_option pool (exec cfg [Step i True, Step i False, Step i ok] s)
                 = Some (b # pool s) \<and>
               map_option pool (exec cfg (replicate (upload_length cfg) (Step i True)) s)
                 = Some (b # pool s)"
      by simp
  qed
  have m: "\<forall>i ok s'. step cfg (Step i ok) s = Some s' \<and> i < length (running s) \<and>
            t_pc (running s ! i) = PoolGet \<and> \<not> panicked s' \<longrightarrow>
            t_pc (running s' ! i) = StartTime \<and> dropped s' = dropped s \<and>
            (t_buf (running s' ! i) = Some (made s) \<and> made s' = made s + 1 \<and>
               pool s' = pool s \<or>
             (\<exists>b. t_buf (running s' ! i) = Some b \<and> pool s = b # pool s' \<and>
                made s' = made s))"
  proof (intro allI impI, elim conjE)
    fix i ok s'
    assume st: "step cfg (Step i ok) s = Some s'" and i: "i < length (running s)"
      and pc: "t_pc (running s ! i) = PoolGet" and np: "\<not> panicked s'"
    from pc have "t_pc (running s ! i) \<noteq> Return" by simp
    from own [OF st i this] i pc np
    show "t_pc (running s' ! i) = StartTime \<and> dropped s' = dropped s \<and>
            (t_buf (running s' ! i) = Some (made s) \<and> made s' = made s + 1 \<and>
               pool s' = pool s \<or>
             (\<exists>b. t_buf (running s' ! i) = Some b \<and> pool s = b # pool s' \<and>
                made s' = made s))"
      by (cases "pool s"; cases ok; cases "make_panics (buffer_size cfg)")
         (simp_all add: task_step_def pool_New_def)
  qed
  have n: "\<forall>a s'. step cfg a s = Some s' \<and> a \<noteq> PoolDrop \<and>
            (\<nexists>i ok. a = Step i ok \<and> i < length (running s) \<and>
               t_pc (running s ! i) \<in> {PoolGet, PoolPut}) \<longrightarrow>
            pool s' = pool s \<and> made s' = made s \<and> dropped s' = dropped s"
  proof (intro allI impI, elim conjE)
    fix a s'
    assume st: "step cfg a s = Some s'" and a: "a \<noteq> PoolDrop"
      and no: "\<nexists>i ok. a = Step i ok \<and> i < length (running s) \<and>
               t_pc (running s ! i) \<in> {PoolGet, PoolPut}"
    show "pool s' = pool s \<and> made s' = made s \<and> dropped s' = dropped s"
    proof (cases a)
      case Go
      with st show ?thesis
        by (auto simp add: step_def split: if_splits list.splits)
    next
      case (Step i ok)
      with st have i: "i < length (running s)" and st': "step cfg (Step i ok) s = Some s'"
        by (auto simp add: step_def split: if_splits)
      let ?t = "running s ! i"
      show ?thesis
      proof (cases "t_pc ?t = Return")
        case True
        with st' i show ?thesis
          by (auto simp add: step_def finish_def split: if_splits option.splits)
      next
        case False
        from no Step i have "t_pc ?t \<noteq> PoolGet" "t_pc ?t \<noteq> PoolPut" by auto
        then have "pool (fst (task_step cfg ok s ?t)) = pool s \<and>
            made (fst (task_step cfg ok s ?t)) = made s \<and>
            dropped (fst (task_step cfg ok s ?t)) = dropped s"
          by (cases "t_pc ?t") (simp_all add: task_step_def split: option.splits)
        with own [OF st' i False] show ?thesis by simp
      qed
    next
      case Tick
      with st show ?thesis
        by (auto simp add: step_def split: if_splits)
    next
      case PoolDrop
      with a show ?thesis by simp
    qed
  qed
  have o: "\<forall>s'. step cfg PoolDrop s = Some s' \<longrightarrow>
            (\<exists>b. pool s = b # pool s' \<and> dropped s' = b # dropped s) \<and>
            made s' = made s \<and> running s' = running s"
    by (auto simp add: step_def split: if_splits list.splits)
  have q: "\<forall>s'. step cfg Go s = Some s' \<longrightarrow>
            (cfg_n cfg < 0 \<or> int (length (running s)) < cfg_n cfg) \<and>
            running s' = running s @ [new_task (hd (pending s))] \<and>
            t_buf (new_task (hd (pending s))) = None"
    by (auto simp add: step_def new_task_def split: if_splits list.splits)
  show ?thesis by (intro conjI a b c d e f g h k l m n o q)
qed

theorem buffers_released_witness:
  "(case exec one_at_a_time ignoring_pool (init one_at_a_time) of
      None \<Rightarrow> False
    | Some s \<Rightarrow> checked_out s = 1 \<and> int (checked_out s) \<le> cfg_n one_at_a_time \<and>
        mset (pool s) + mset (dropped s) + mset (held s) = mset [0..<made s])"
proof -
  have "map_option checked_out (exec one_at_a_time ignoring_pool (init one_at_a_time)) = Some 1"
    by code_simp
  then obtain s where run: "exec one_at_a_time ignoring_pool (init one_at_a_time) = Some s"
    and out: "checked_out s = 1"
    by auto
  have "0 \<le> cfg_n one_at_a_time"
    by (simp add: one_at_a_time_def)
  with buffers_released [OF run]
  have "int (checked_out s) \<le> cfg_n one_at_a_time"
    and "mset (pool s) + mset (dropped s) + mset (held s) = mset [0..<made s]"
    by blast+
  with run out show ?thesis by simp
qed

theorem buffers_released_counterexample:
  "map_option live_buffers (exec one_at_a_time ignoring_pool (init one_at_a_time)) = Some 2 \<and>
   map_option checked_out (exec one_at_a_time ignoring_pool (init one_at_a_time)) = Some 1 \<and>
   map_option pool (exec one_at_a_time ignoring_pool (init one_at_a_time)) = Some [0] \<and>
   cfg_n one_at_a_time = 1"
  by code_simp

section \<open>The uploads that have succeeded\<close>

lemma uploads_event [simp]:
  "uploads (s\<lparr>io := io s @ [e]\<rparr>) = uploads s + (if upload_done e then 1 else 0)"
  by (simp add: uploads_def)

lemma up_task_step:
  assumes "task_step cfg ok s t = (s1, t')" and "counts cfg"
  shows "counter s1 + (if at_count t' then 1 else 0) + int (uploads s)
    = counter s + (if at_count t then 1 else 0) + int (uploads s1)"
  using assms(1)
  by (cases rule: task_step_cases)
     (use assms(2) in \<open>auto simp add: at_count_def uploads_def counts_def after_close_def
        after_count_def split: version.splits option.splits\<close>)

lemma inv_up_init: "inv_up cfg (init cfg)"
  by (simp add: inv_up_def init_def uploads_def)

lemma inv_up_step:
  assumes inv: "inv_up cfg s" and "step cfg a s = Some s'"
  shows "inv_up cfg s'"
  using assms(2)
proof (cases rule: step_cases)
  case (Go f fs)
  with inv show ?thesis
    by (simp add: inv_up_def at_count_def new_task_def uploads_def)
next
  case (Finish i ok)
  note len = filter_remove_length [OF Finish(2), of at_count]
  from Finish have "io s' = io s" "counter s' = counter s"
    "running s' = take i (running s) @ drop (Suc i) (running s)"
    by (auto simp add: finish_def split: option.splits)
  with inv len Finish(3) show ?thesis
    by (simp add: inv_up_def at_count_def uploads_def)
next
  case (Task i ok s1 t')
  note len = filter_update_length [OF Task(2), of at_count t']
  have s'_fields: "counter s' = counter s1" "uploads s' = uploads s1"
    "running s' = (running s)[i := t']"
    using Task(5) by (simp_all add: uploads_def)
  show ?thesis
  proof (cases "counts cfg")
    case True
    from up_task_step [OF Task(4) True] inv True len s'_fields show ?thesis
      by (auto simp add: inv_up_def split: if_splits)
  next
    case False
    then show ?thesis by (simp add: inv_up_def)
  qed
next
  case Tick
  with inv show ?thesis by (simp add: inv_up_def uploads_def)
next
  case (PoolDrop b bs)
  with inv show ?thesis by (simp add: inv_up_def uploads_def)
qed

lemma reachable_up:
  assumes "exec cfg acts (init cfg) = Some s"
  shows "inv_up cfg s"
  using assms
proof (rule exec_invariant)
  show "inv_up cfg (init cfg)" by (rule inv_up_init)
next
  fix a s s'
  assume "inv_up cfg s" and "step cfg a s = Some s'"
  then show "inv_up cfg s'" by (rule inv_up_step)
qed

section \<open>The work list of part_001\<close>






section \<open>The lines logged\<close>

lemma inv_time_init: "inv_time (init cfg)"
  by (simp add: inv_time_def init_def)

lemma time_task_step:
  assumes "task_step cfg ok s t = (s1, t')" and "t_start t \<le> clock s"
  shows "t_start t' \<le> clock s1 \<and> clock s1 = clock s"
  using assms(1)
  by (cases rule: task_step_cases) (use assms(2) in \<open>auto split: option.splits\<close>)

lemma inv_time_step:
  assumes inv: "inv_time s" and "step cfg a s = Some s'"
  shows "inv_time s'"
  using assms(2)
proof (cases rule: step_cases)
  case (Go f fs)
  with inv show ?thesis
    by (auto simp add: inv_time_def new_task_def)
next
  case (Finish i ok)
  have "set (take i (running s) @ drop (Suc i) (running s)) \<subseteq> set (running s)"
    by (auto dest: in_set_takeD in_set_dropD)
  with Finish inv show ?thesis
    by (auto simp add: inv_time_def finish_def split: option.splits)
next
  case (Task i ok s1 t')
  from inv Task(2) have "t_start (running s ! i) \<le> clock s"
    by (simp add: inv_time_def)
  from time_task_step [OF Task(4) this] have t': "t_start t' \<le> clock s1" and c: "clock s1 = clock s"
    by simp_all
  have "\<forall>t \<in> set ((running s)[i := t']). t_start t \<le> clock s1"
  proof
    fix t assume "t \<in> set ((running s)[i := t'])"
    then have "t = t' \<or> t \<in> set (running s)"
      using set_update_subset_insert [of "running s" i t'] by auto
    with t' c inv show "t_start t \<le> clock s1"
      by (auto simp add: inv_time_def)
  qed
  with Task(5) show ?thesis
    by (simp add: inv_time_def)
next
  case Tick
  with inv show ?thesis by (auto simp add: inv_time_def)
next
  case (PoolDrop b bs)
  with inv show ?thesis by (simp add: inv_time_def)
qed

lemma reachable_time:
  assumes "exec cfg acts (init cfg) = Some s"
  shows "inv_time s"
  using assms
proof (rule exec_invariant)
  show "inv_time (init cfg)" by (rule inv_time_init)
next
  fix a s s'
  assume "inv_time s" and "step cfg a s = Some s'"
  then show "inv_time s'" by (rule inv_time_step)
qed

lemma before_log_length:
  "length (filter (\<lambda>t. t_pc t \<in> {CountAdd, RunGC, LogPrintf}) ts)
     = length (filter unlogged ts) + length (filter at_count ts)"
  by (induction ts) (auto simp add: unlogged_def at_count_def)

text \<open>
  Claim C8, as amended. With \<^verbatim>\<open>-v\<close> every upload that has succeeded gets exactly one
  line: at every moment the lines logged and the tasks between their successful
  \<^verbatim>\<open>w.Close\<close> and their \<^verbatim>\<open>log.Printf\<close> are as many as the successful uploads, and a
  finished run has logged one line for each; without \<^verbatim>\<open>-v\<close> nothing is logged. The
  line a task logs holds the number its own \<^verbatim>\<open>count.Add(1)\<close> returned, right-aligned
  and padded with spaces, not zeros (to seven columns in part_001, to the width of
  the number of files in main.go and part_000), the destination \<^verbatim>\<open>gs://\<close> followed
  by the join of the bucket and the object name of the task's own file, and the time
  that has passed since the task read the clock before its copy: that reading is
  never after the moment of the line, is made at \<^verbatim>\<open>start = time.Now()\<close> only, and no
  step of another task touches it. When the clock ticks \<open>a\<close> times between a task's
  reading and its copy and the task then runs to its line, the line says \<open>a\<close>.
\<close>

theorem verbose_lines:
  assumes "exec cfg acts (init cfg) = Some s"
  shows "(cfg_verbose cfg \<longrightarrow>
            int (length (logged s)) +
              int (length (filter (\<lambda>t. t_pc t \<in> {CountAdd, RunGC, LogPrintf}) (running s)))
              = int (uploads s)) \<and>
         (cfg_verbose cfg \<and> finished s \<longrightarrow> length (logged s) = uploads s) \<and>
         (\<not> cfg_verbose cfg \<longrightarrow> logged s = []) \<and>
         (\<forall>l \<in> set (logged s).
            \<exists>f name k. f \<in> set (cfg_files cfg) \<and> object_name cfg f = Some name \<and>
              0 < k \<and> k \<le> counter s \<and>
              l_count l =
                replicate ((if cfg_version cfg = Part001 then 7 else countWidth cfg)
                             - length (strconv_Itoa k)) CHR '' '' @ strconv_Itoa k \<and>
              l_dest l = ''gs://'' @ path_Join [Hostname (cfg_dest cfg), name]) \<and>
         (\<forall>i ok s'. step cfg (Step i ok) s = Some s' \<and> i < length (running s) \<and>
            t_pc (running s ! i) = LogPrintf \<longrightarrow>
            logged s' = logged s @
              [\<lparr>l_count =
                  replicate ((if cfg_version cfg = Part001 then 7 else countWidth cfg)
                               - length (strconv_Itoa (t_c (running s ! i)))) CHR '' ''
                    @ strconv_Itoa (t_c (running s ! i)),
                l_dest = ''gs://'' @ path_Join [Hostname (cfg_dest cfg), t_name (running s ! i)],
                l_elapsed = clock s - t_start (running s ! i)\<rparr>] \<and>
            object_name cfg (t_file (running s ! i)) = Some (t_name (running s ! i)) \<and>
            0 < t_c (running s ! i) \<and> t_c (running s ! i) \<le> counter s \<and>
            t_start (running s ! i) \<le> clock s \<and>
            t_pc (running s' ! i) = PoolPut) \<and>
         (\<forall>a s'. step cfg a s = Some s' \<and>
            (\<nexists>i ok. a = Step i ok \<and> i < length (running s) \<and>
               t_pc (running s ! i) = LogPrintf) \<longrightarrow>
            logged s' = logged s) \<and>
         (\<forall>ok s0 t.
            t_start (snd (task_step cfg ok s0 t))
              = (if t_pc t = StartTime then (if cfg_verbose cfg then clock s0 else 0)
                 else t_start t) \<and>
            t_file (snd (task_step cfg ok s0 t)) = t_file t \<and>
            t_c (snd (task_step cfg ok s0 t))
              = (if t_pc t = CountAdd then counter s0 + 1 else t_c t) \<and>
            t_name (snd (task_step cfg ok s0 t))
              = (if t_pc t = NewWriter
                 then (case object_name cfg (t_file t) of None \<Rightarrow> t_name t | Some name \<Rightarrow> name)
                 else t_name t)) \<and>
         (\<forall>a s'. step cfg a s = Some s' \<longrightarrow>
            (\<forall>i ok. a = Step i ok \<and> i < length (running s) \<and>
               t_pc (running s ! i) \<noteq> Return \<longrightarrow>
               running s' = (running s)[i := snd (task_step cfg ok s (running s ! i))]) \<and>
            (\<forall>i ok. a = Step i ok \<and> i < length (running s) \<and>
               t_pc (running s ! i) = Return \<longrightarrow>
               running s' = take i (running s) @ drop (Suc i) (running s)) \<and>
            (a = Go \<longrightarrow> running s' = running s @ [new_task (hd (pending s))]) \<and>
            (a = Tick \<or> a = PoolDrop \<longrightarrow> running s' = running s)) \<and>
         (\<forall>i ok a. cfg_verbose cfg \<and> i < length (running s) \<and>
            t_pc (running s ! i) = StartTime \<and> buffer_size cfg \<noteq> 0 \<and> \<not> panicked s \<longrightarrow>
            object_name cfg (t_file (running s ! i)) = Some (t_name (running s ! i)) \<and>
            map_option logged
                (exec cfg (Step i ok # replicate a Tick
                             @ replicate (upload_length cfg) (Step i True)) s)
              = Some (logged s @
                  [\<lparr>l_count = count_field cfg (counter s + 1),
                    l_dest = destination cfg (t_name (running s ! i)),
                    l_elapsed = a\<rparr>]))"
proof -
  note inv = reachable_log [OF assms]
  note wf = reachable_wf [OF assms]
  have own: "s' = (fst (task_step cfg ok s (running s ! i)))
      \<lparr>running := (running s)[i := snd (task_step cfg ok s (running s ! i))]\<rparr>"
    if "step cfg (Step i ok) s = Some s'" "i < length (running s)"
      "t_pc (running s ! i) \<noteq> Return" for i ok s'
    using that by (auto simp add: step_def split: if_splits prod.splits)
  have task: "task_ok cfg (counter s) (running s ! i)" if "i < length (running s)" for i
    using wf that by (simp add: inv_wf_def)
  have a: "cfg_verbose cfg \<longrightarrow>
            int (length (logged s)) +
              int (length (filter (\<lambda>t. t_pc t \<in> {CountAdd, RunGC, LogPrintf}) (running s)))
              = int (uploads s)"
  proof
    assume v: "cfg_verbose cfg"
    with inv have "int (length (logged s)) + int (length (filter unlogged (running s)))
        = counter s"
      by (simp add: inv_log_def)
    moreover from v reachable_up [OF assms]
    have "counter s + int (length (filter at_count (running s))) = int (uploads s)"
      by (simp add: inv_up_def counts_def)
    ultimately show "int (length (logged s)) +
              int (length (filter (\<lambda>t. t_pc t \<in> {CountAdd, RunGC, LogPrintf}) (running s)))
              = int (uploads s)"
      unfolding before_log_length by simp
  qed
  then have b: "cfg_verbose cfg \<and> finished s \<longrightarrow> length (logged s) = uploads s"
    by (auto simp add: finished_def)
  have c: "\<not> cfg_verbose cfg \<longrightarrow> logged s = []"
    using inv by (simp add: inv_log_def)
  have d: "\<forall>l \<in> set (logged s).
            \<exists>f name k. f \<in> set (cfg_files cfg) \<and> object_name cfg f = Some name \<and>
              0 < k \<and> k \<le> counter s \<and>
              l_count l =
                replicate ((if cfg_version cfg = Part001 then 7 else countWidth cfg)
                             - length (strconv_Itoa k)) CHR '' '' @ strconv_Itoa k \<and>
              l_dest l = ''gs://'' @ path_Join [Hostname (cfg_dest cfg), name]"
  proof
    fix l assume "l \<in> set (logged s)"
    with inv have "line_ok cfg (counter s) l"
      by (simp add: inv_log_def)
    then obtain f name k where "f \<in> set (cfg_files cfg)" "object_name cfg f = Some name"
      "0 < k" "k \<le> counter s" "l_count l = count_field cfg k" "l_dest l = destination cfg name"
      unfolding line_ok_def by blast
    then show "\<exists>f name k. f \<in> set (cfg_files cfg) \<and> object_name cfg f = Some name \<and>
              0 < k \<and> k \<le> counter s \<and>
              l_count l =
                replicate ((if cfg_version cfg = Part001 then 7 else countWidth cfg)
                             - length (strconv_Itoa k)) CHR '' '' @ strconv_Itoa k \<and>
              l_dest l = ''gs://'' @ path_Join [Hostname (cfg_dest cfg), name]"
      by (intro exI [of _ f] exI [of _ name] exI [of _ k])
         (simp add: count_field_def fmt_d_def destination_def split: version.splits)
  qed
  have e: "\<forall>i ok s'. step cfg (Step i ok) s = Some s' \<and> i < length (running s) \<and>
            t_pc (running s ! i) = LogPrintf \<longrightarrow>
            logged s' = logged s @
              [\<lparr>l_count =
                  replicate ((if cfg_version cfg = Part001 then 7 else countWidth cfg)
                               - length (strconv_Itoa (t_c (running s ! i)))) CHR '' ''
                    @ strconv_Itoa (t_c (running s ! i)),
                l_dest = ''gs://'' @ path_Join [Hostname (cfg_dest cfg), t_name (running s ! i)],
                l_elapsed = clock s - t_start (running s ! i)\<rparr>] \<and>
            object_name cfg (t_file (running s ! i)) = Some (t_name (running s ! i)) \<and>
            0 < t_c (running s ! i) \<and> t_c (running s ! i) \<le> counter s \<and>
            t_start (running s ! i) \<le> clock s \<and>
            t_pc (running s' ! i) = PoolPut"
  proof (intro allI impI, elim conjE)
    fix i ok s'
    assume st: "step cfg (Step i ok) s = Some s'" and i: "i < length (running s)"
      and pc: "t_pc (running s ! i) = LogPrintf"
    from task [OF i] pc
    have "object_name cfg (t_file (running s ! i)) = Some (t_name (running s ! i))"
      "0 < t_c (running s ! i)" "t_c (running s ! i) \<le> counter s"
      by (simp_all add: task_ok_def)
    moreover from reachable_time [OF assms] i have "t_start (running s ! i) \<le> clock s"
      by (simp add: inv_time_def)
    moreover have "verbose_line cfg s (running s ! i) =
        \<lparr>l_count =
            replicate ((if cfg_version cfg = Part001 then 7 else countWidth cfg)
                         - length (strconv_Itoa (t_c (running s ! i)))) CHR '' ''
              @ strconv_Itoa (t_c (running s ! i)),
          l_dest = ''gs://'' @ path_Join [Hostname (cfg_dest cfg), t_name (running s ! i)],
          l_elapsed = clock s - t_start (running s ! i)\<rparr>"
      by (simp add: verbose_line_def count_field_def fmt_d_def destination_def
          split: version.splits)
    ultimately show "logged s' = logged s @
              [\<lparr>l_count =
                  replicate ((if cfg_version cfg = Part001 then 7 else countWidth cfg)
                               - length (strconv_Itoa (t_c (running s ! i)))) CHR '' ''
                    @ strconv_Itoa (t_c (running s ! i)),
                l_dest = ''gs://'' @ path_Join [Hostname (cfg_dest cfg), t_name (running s ! i)],
                l_elapsed = clock s - t_start (running s ! i)\<rparr>] \<and>
            object_name cfg (t_file (running s ! i)) = Some (t_name (running s ! i)) \<and>
            0 < t_c (running s ! i) \<and> t_c (running s ! i) \<le> counter s \<and>
            t_start (running s ! i) \<le> clock s \<and>
            t_pc (running s' ! i) = PoolPut"
      using own [OF st i] i pc by (simp add: task_step_def)
  qed
  have f: "\<forall>a s'. step cfg a s = Some s' \<and>
            (\<nexists>i ok. a = Step i ok \<and> i < length (running s) \<and>
               t_pc (running s ! i) = LogPrintf) \<longrightarrow>
            logged s' = logged s"
  proof (intro allI impI, elim conjE)
    fix a s'
    assume st: "step cfg a s = Some s'"
      and no: "\<nexists>i ok. a = Step i ok \<and> i < length (running s) \<and>
               t_pc (running s ! i) = LogPrintf"
    show "logged s' = logged s"
    proof (cases a)
      case Go
      with st show ?thesis
        by (auto simp add: step_def split: if_splits list.splits)
    next
      case (Step i ok)
      with st have i: "i < length (running s)" and st': "step cfg (Step i ok) s = Some s'"
        by (auto simp add: step_def split: if_splits)
      let ?t = "running s ! i"
      show ?thesis
      proof (cases "t_pc ?t = Return")
        case True
        with st' i show ?thesis
          by (auto simp add: step_def finish_def split: if_splits option.splits)
      next
        case False
        from own [OF st' i False] have "logged s' = logged (fst (task_step cfg ok s ?t))"
          by simp
        moreover from no Step i have "t_pc ?t \<noteq> LogPrintf" by auto
        then have "logged (fst (task_step cfg ok s ?t)) = logged s"
          by (cases "t_pc ?t")
             (simp_all add: task_step_def pool_New_def split: option.splits list.splits)
        ultimately show ?thesis by simp
      qed
    next
      case Tick
      with st show ?thesis
        by (auto simp add: step_def split: if_splits)
    next
      case PoolDrop
      with st show ?thesis
        by (auto simp add: step_def split: if_splits list.splits)
    qed
  qed
  have g: "\<forall>ok s0 t.
            t_start (snd (task_step cfg ok s0 t))
              = (if t_pc t = StartTime then (if cfg_verbose cfg then clock s0 else 0)
                 else t_start t) \<and>
            t_file (snd (task_step cfg ok s0 t)) = t_file t \<and>
            t_c (snd (task_step cfg ok s0 t))
              = (if t_pc t = CountAdd then counter s0 + 1 else t_c t) \<and>
            t_name (snd (task_step cfg ok s0 t))
              = (if t_pc t = NewWriter
                 then (case object_name cfg (t_file t) of None \<Rightarrow> t_name t | Some name \<Rightarrow> name)
                 else t_name t)"
  proof (intro allI)
    fix ok s0 t
    show "t_start (snd (task_step cfg ok s0 t))
              = (if t_pc t = StartTime then (if cfg_verbose cfg then clock s0 else 0)
                 else t_start t) \<and>
            t_file (snd (task_step cfg ok s0 t)) = t_file t \<and>
            t_c (snd (task_step cfg ok s0 t))
              = (if t_pc t = CountAdd then counter s0 + 1 else t_c t) \<and>
            t_name (snd (task_step cfg ok s0 t))
              = (if t_pc t = NewWriter
                 then (case object_name cfg (t_file t) of None \<Rightarrow> t_name t | Some name \<Rightarrow> name)
                 else t_name t)"
      by (cases "t_pc t")
         (simp_all add: task_step_def pool_New_def split: option.splits list.splits)
  qed
  have h: "\<forall>a s'. step cfg a s = Some s' \<longrightarrow>
            (\<forall>i ok. a = Step i ok \<and> i < length (running s) \<and>
               t_pc (running s ! i) \<noteq> Return \<longrightarrow>
               running s' = (running s)[i := snd (task_step cfg ok s (running s ! i))]) \<and>
            (\<forall>i ok. a = Step i ok \<and> i < length (running s) \<and>
               t_pc (running s ! i) = Return \<longrightarrow>
               running s' = take i (running s) @ drop (Suc i) (running s)) \<and>
            (a = Go \<longrightarrow> running s' = running s @ [new_task (hd (pending s))]) \<and>
            (a = Tick \<or> a = PoolDrop \<longrightarrow> running s' = running s)"
  proof (intro allI impI)
    fix a s'
    assume st: "step cfg a s = Some s'"
    show "(\<forall>i ok. a = Step i ok \<and> i < length (running s) \<and>
               t_pc (running s ! i) \<noteq> Return \<longrightarrow>
               running s' = (running s)[i := snd (task_step cfg ok s (running s ! i))]) \<and>
            (\<forall>i ok. a = Step i ok \<and> i < length (running s) \<and>
               t_pc (running s ! i) = Return \<longrightarrow>
               running s' = take i (running s) @ drop (Suc i) (running s)) \<and>
            (a = Go \<longrightarrow> running s' = running s @ [new_task (hd (pending s))]) \<and>
            (a = Tick \<or> a = PoolDrop \<longrightarrow> running s' = running s)"
    proof (cases a)
      case Go
      with st show ?thesis
        by (auto simp add: step_def split: if_splits list.splits)
    next
      case (Step i ok)
      with st show ?thesis
        by (auto simp add: step_def finish_def split: if_splits option.splits prod.splits)
    next
      case Tick
      with st show ?thesis
        by (auto simp add: step_def split: if_splits)
    next
      case PoolDrop
      with st show ?thesis
        by (auto simp add: step_def split: if_splits list.splits)
    qed
  qed
  have k: "\<forall>i ok a. cfg_verbose cfg \<and> i < length (running s) \<and>
            t_pc (running s ! i) = StartTime \<and> buffer_size cfg \<noteq> 0 \<and> \<not> panicked s \<longrightarrow>
            object_name cfg (t_file (running s ! i)) = Some (t_name (running s ! i)) \<and>
            map_option logged
                (exec cfg (Step i ok # replicate a Tick
                             @ replicate (upload_length cfg) (Step i True)) s)
              = Some (logged s @
                  [\<lparr>l_count = count_field cfg (counter s + 1),
                    l_dest = destination cfg (t_name (running s ! i)),
                    l_elapsed = a\<rparr>])"
  proof (intro allI impI, elim conjE)
    fix i ok a
    assume v: "cfg_verbose cfg" and i: "i < length (running s)"
      and pc: "t_pc (running s ! i) = StartTime" and size: "buffer_size cfg \<noteq> 0"
      and p: "\<not> panicked s"
    from task [OF i] pc
    have "object_name cfg (t_file (running s ! i)) = Some (t_name (running s ! i))"
      by (simp add: task_ok_def)
    moreover have "map_option logged
                (exec cfg (Step i ok # replicate a Tick
                             @ replicate (upload_length cfg) (Step i True)) s)
              = Some (logged s @
                  [\<lparr>l_count = count_field cfg (counter s + 1),
                    l_dest = destination cfg (t_name (running s ! i)),
                    l_elapsed = a\<rparr>])"
    proof -
      let ?s1 = "s\<lparr>running := (running s)[i := (running s ! i)
                   \<lparr>t_start := clock s, t_pc := CopyBuffer\<rparr>]\<rparr>"
      let ?s2 = "?s1\<lparr>clock := clock s + a\<rparr>"
      from p i pc v have "step cfg (Step i ok) s = Some ?s1"
        by (simp add: step_def task_step_def)
      moreover from p have "\<not> panicked ?s1" by simp
      from exec_ticks [OF this, of cfg a]
      have "exec cfg (replicate a Tick) ?s1 = Some ?s2"
        by simp
      ultimately have first: "exec cfg (Step i ok # replicate a Tick) s = Some ?s2"
        by simp
      from p i size v
      have "map_option logged (exec cfg (replicate (upload_length cfg) (Step i True)) ?s2)
          = Some (logged s @
                  [\<lparr>l_count = count_field cfg (counter s + 1),
                    l_dest = destination cfg (t_name (running s ! i)),
                    l_elapsed = a\<rparr>])"
        by (cases "cfg_version cfg";
            cases "0 < cfg_gcInterval cfg \<and> go_rem (counter s + 1) (cfg_gcInterval cfg) = 0")
           (simp_all add: upload_length_def counts_def eval_nat_numeral step_def task_step_def
              after_close_def after_count_def verbose_line_def split: option.splits)
      with first show ?thesis
        using exec_append [of cfg "Step i ok # replicate a Tick"
            "replicate (upload_length cfg) (Step i True)" s]
        by simp
    qed
    ultimately show "object_name cfg (t_file (running s ! i)) = Some (t_name (running s ! i)) \<and>
            map_option logged
                (exec cfg (Step i ok # replicate a Tick
                             @ replicate (upload_length cfg) (Step i True)) s)
              = Some (logged s @
                  [\<lparr>l_count = count_field cfg (counter s + 1),
                    l_dest = destination cfg (t_name (running s ! i)),
                    l_elapsed = a\<rparr>])"
      by simp
  qed
  show ?thesis by (intro conjI a b c d e f g h k)
qed

theorem verbose_lines_witness:
  "(case exec (scenario MainGo True 0) (one_by_one 14) (init (scenario MainGo True 0)) of
      None \<Rightarrow> False
    | Some s \<Rightarrow> finished s \<and> length (logged s) = uploads s \<and> uploads s = 3)"
proof -
  have "map_option outcome
     (exec (scenario MainGo True 0) (one_by_one 14) (init (scenario MainGo True 0)))
     = Some (True, None, 3)"
    and "map_option uploads
     (exec (scenario MainGo True 0) (one_by_one 14) (init (scenario MainGo True 0)))
     = Some 3"
    by code_simp+
  then obtain s where run: "exec (scenario MainGo True 0) (one_by_one 14)
      (init (scenario MainGo True 0)) = Some s" and out: "outcome s = (True, None, 3)"
    and up: "uploads s = 3"
    by auto
  from out have fin: "finished s"
    by (simp add: outcome_def)
  have "cfg_verbose (scenario MainGo True 0)"
    by (simp add: scenario_def)
  with verbose_lines [OF run, THEN conjunct2, THEN conjunct1] fin
  have "length (logged s) = uploads s"
    by blast
  with run fin up show ?thesis by simp
qed

theorem verbose_lines_counterexample:
  "map_option log_counts
     (exec (scenario Part001 True 0) (one_by_one 14) (init (scenario Part001 True 0)))
     = Some [''      1'', ''      2'', ''      3''] \<and>
   count_field (scenario Part001 True 0) 1 \<noteq> ''0000001'' \<and>
   count_field (scenario MainGo True 0\<lparr>cfg_files := replicate 10 ''f''\<rparr>) 1 = '' 1''"
  by code_simp

section \<open>Blank lines of the list file\<close>




end
